theory Spec2Isabelle
  imports Main "HOL-Library.Sublist"
begin

section \<open>JavaScript strings and values\<close>

text \<open>
  The script \<^verbatim>\<open>packages/toolkit-cli/bin/setup-npm-github.js\<close> is modelled in its final,
  refactored version (the third copy in the source file); the registry stage of the two
  earlier copies is modelled next to it for the comparison of the versions.

  A JavaScript string is a \<open>string\<close>, a list of 8-bit characters: the model covers the
  strings whose code units are below 256. The string methods the script calls are
  written out below with the semantics of ECMAScript.

  What the model leaves out: the handlers for \<^verbatim>\<open>SIGINT\<close> and \<^verbatim>\<open>SIGTERM\<close> and the raw
  mode of the terminal. The account name in \<^verbatim>\<open>USER\<close> is taken to be a plain word, and the
  secret printed by the Keychain read to be the stored one followed by a line feed.
\<close>

definition js_startsWith :: "string \<Rightarrow> string \<Rightarrow> bool" where
  "js_startsWith s p = prefix p s"

definition js_endsWith :: "string \<Rightarrow> string \<Rightarrow> bool" where
  "js_endsWith s p = suffix p s"

definition js_includes :: "string \<Rightarrow> string \<Rightarrow> bool" where
  "js_includes s p = sublist p s"

text \<open>\<^verbatim>\<open>s.split(c)\<close> for a one-character separator: never the empty list.\<close>

fun js_split :: "char \<Rightarrow> string \<Rightarrow> string list" where
  "js_split c [] = [[]]"
| "js_split c (x # xs) =
     (if x = c then [] # js_split c xs
      else (case js_split c xs of
              [] \<Rightarrow> [[x]]
            | y # ys \<Rightarrow> (x # y) # ys))"

text \<open>\<^verbatim>\<open>xs.join(c)\<close> for a one-character separator.\<close>

fun js_join :: "char \<Rightarrow> string list \<Rightarrow> string" where
  "js_join c [] = []"
| "js_join c [x] = x"
| "js_join c (x # y # ys) = x @ c # js_join c (y # ys)"

text \<open>
  The white space and line terminators that \<^verbatim>\<open>trim()\<close> strips, among the characters
  below 256: TAB, LF, VT, FF, CR, SP and NBSP.
\<close>

definition js_space :: "char \<Rightarrow> bool" where
  "js_space c \<longleftrightarrow> c \<in> {CHR 0x09, CHR 0x0A, CHR 0x0B, CHR 0x0C, CHR 0x0D, CHR 0x20, CHR 0xA0}"

definition js_trim :: "string \<Rightarrow> string" where
  "js_trim s = rev (dropWhile js_space (rev (dropWhile js_space s)))"

text \<open>
  The values the parser stores: a string or the boolean \<^verbatim>\<open>true\<close>. A missing property
  (\<^verbatim>\<open>undefined\<close>) is \<open>None\<close> in the map of own properties.
\<close>

datatype jsval = Str string | JTrue

type_synonym jsobj = "string \<rightharpoonup> jsval"

fun truthy :: "jsval option \<Rightarrow> bool" where
  "truthy None = False"
| "truthy (Some (Str s)) = (s \<noteq> [])"
| "truthy (Some JTrue) = True"

text \<open>\<^verbatim>\<open>a || b\<close> with \<open>a\<close> a property read and \<open>b\<close> a string constant.\<close>

definition js_or :: "jsval option \<Rightarrow> string \<Rightarrow> jsval" where
  "js_or a b = (case a of Some v \<Rightarrow> if truthy a then v else Str b | None \<Rightarrow> Str b)"

text \<open>String conversion, as a template literal \<^verbatim>\<open>`${v}`\<close> performs it.\<close>

fun to_string :: "jsval \<Rightarrow> string" where
  "to_string (Str s) = s"
| "to_string JTrue = ''true''"

text \<open>
  \<^verbatim>\<open>out[k] = v\<close> on a plain object with a primitive \<open>v\<close>: an own property is written,
  except for the key \<^verbatim>\<open>__proto__\<close>, whose setter ignores primitives.
\<close>

definition set_prop :: "jsobj \<Rightarrow> string \<Rightarrow> jsval \<Rightarrow> jsobj" where
  "set_prop out k v = (if k = ''__proto__'' then out else out(k \<mapsto> v))"

section \<open>The argument parser\<close>

text \<open>
  \<^verbatim>\<open>parseArgs\<close>: the loop over \<^verbatim>\<open>raw = argv.slice(2)\<close>. The index \<open>i\<close> of the source is
  the position of the head of the remaining list; \<^verbatim>\<open>raw[i + 1]\<close> is \<^verbatim>\<open>undefined\<close> when
  the list ends, and \<^verbatim>\<open>i++\<close> drops the consumed value.
\<close>

fun parse_loop :: "string list \<Rightarrow> jsobj \<Rightarrow> jsobj" where
  "parse_loop [] out = out"
| "parse_loop [a] out =
     (if \<not> js_startsWith a ''--'' then out
      else if js_includes a ''='' then
        (let parts = js_split CHR ''='' (drop 2 a)
         in set_prop out (hd parts) (Str (js_join CHR ''='' (tl parts))))
      else set_prop out (drop 2 a) JTrue)"
| "parse_loop (a # nxt # rest) out =
     (if \<not> js_startsWith a ''--'' then parse_loop (nxt # rest) out
      else if js_includes a ''='' then
        (let parts = js_split CHR ''='' (drop 2 a)
         in parse_loop (nxt # rest)
              (set_prop out (hd parts) (Str (js_join CHR ''='' (tl parts)))))
      else if nxt \<noteq> [] \<and> \<not> js_startsWith nxt ''--'' then
        parse_loop rest (set_prop out (drop 2 a) (Str nxt))
      else parse_loop (nxt # rest) (set_prop out (drop 2 a) JTrue))"

definition parseArgs :: "string list \<Rightarrow> jsobj" where
  "parseArgs argv = parse_loop (drop 2 argv) Map.empty"

section \<open>Configuration, environment and world\<close>

definition ORG_DEFAULT :: string where
  "ORG_DEFAULT = ''yolotechnology''"

definition KEYCHAIN_SERVICE :: string where
  "KEYCHAIN_SERVICE = ''GITHUB_PACKAGES_NPM_TOKEN''"

definition LF :: char where
  "LF = CHR 0x0A"

definition KEYCHAIN_LOADER_SCRIPT :: string where
  \<open>KEYCHAIN_LOADER_SCRIPT =
     ''# Load GitHub Packages token from macOS Keychain'' @ [LF] @
     ''export NPM_TOKEN="$(security find-generic-password -a "$USER" -s '' @
     KEYCHAIN_SERVICE @ '' -w 2>/dev/null)"''\<close>

text \<open>
  The constants the script derives from the parsed arguments at top level:
  \<^verbatim>\<open>org = parsed.org || ORG_DEFAULT\<close>, \<^verbatim>\<open>dryRun = Boolean(parsed['dry-run'])\<close>,
  \<^verbatim>\<open>tokenArg = parsed.token || ''\<close>, and the test \<^verbatim>\<open>parsed.help || parsed.h\<close>.
\<close>

record config =
  org :: jsval
  dryRun :: bool
  tokenArg :: jsval

definition config_of :: "jsobj \<Rightarrow> config" where
  "config_of parsed =
     \<lparr> org = js_or (parsed ''org'') ORG_DEFAULT,
       dryRun = truthy (parsed ''dry-run''),
       tokenArg = js_or (parsed ''token'') [] \<rparr>"

definition help_requested :: "jsobj \<Rightarrow> bool" where
  "help_requested parsed \<longleftrightarrow> truthy (parsed ''help'') \<or> truthy (parsed ''h'')"

text \<open>
  The files the script touches, all directly under the home directory, and the external
  commands it runs through \<^verbatim>\<open>execSync\<close>: the Keychain write (with the token), the
  Keychain read, and \<^verbatim>\<open>npm whoami\<close> (with the \<^verbatim>\<open>NPM_TOKEN\<close> put in its environment).
\<close>

datatype path = Zshrc | Bashrc | BashProfile | Npmrc

datatype cmd = SecurityAdd string | SecurityFind | NpmWhoami string

text \<open>
  Every operation that can throw is named, and the environment says which ones fail in
  this run. The \<^verbatim>\<open>catch\<close> branches of the script are the failing branches of the model.
\<close>

datatype ioop =
    VaultAdd | VaultFind | MkdirHome | AccessHome
  | ReadFile path | WriteFile path | AppendFile path

datatype fatal_reason =
    UnsupportedOS | InputInterrupted | EmptyToken | KeychainSaveFailed
  | UnsupportedShell | MkdirFailed | RcWriteFailed path | NpmrcFailed | NpmrcWriteFailed

text \<open>The console lines, one constructor for each message of the script.\<close>

datatype msg =
    Fatal fatal_reason
  | Usage
  | HiddenPrompt
  | Newline
  | ConfirmQuestion
  | Cancelled
  | DryRunPlaceholderToken
  | DryRunWouldSaveToken
  | TokenSaved
  | UnsupportedShellWarning string
  | DryRunWouldCreate path
  | RcCreated path
  | DryRunWouldAppend path string
  | LoaderAppended path
  | LoaderSkipped path
  | DryRunWouldWriteNpmrc string
  | NpmrcCreated
  | NpmrcSkipped
  | NpmrcUpdated
  | NpmrcWritten
  | CheckingNpmToken
  | NpmTokenLoaded nat
  | NpmTokenNotLoaded
  | DryRunWouldVerify
  | DryRunVerifyHint
  | NoCredential
  | VerifyOk string
  | VerifyHint
  | VerifyFailed
  | NpmOutput string

text \<open>
  What the process can change: the Keychain entry for the account and the service name,
  the files, the home directory, and what it leaves behind as a trace: the commands it
  ran and the console output.
\<close>

record world =
  vault :: "string option"
  files :: "path \<rightharpoonup> string"
  home_exists :: bool
  cmds :: "cmd list"
  console :: "msg list"

text \<open>
  What the process reads and cannot change: platform, arguments, environment variables,
  what the terminal delivers (the \<^verbatim>\<open>data\<close> events for the hidden read, the line for the
  confirmation, \<open>None\<close> when none arrives), which operations fail, what the registry
  answers to \<^verbatim>\<open>npm whoami\<close> for a token (\<open>Inr\<close> the standard output of a successful
  command, \<open>Inl\<close> the captured output of a failed one), and what the Keychain write does
  when the token holds characters that the shell interprets (\<open>None\<close> when the command
  line fails).
\<close>

record env =
  platform :: string
  argv :: "string list"
  env_SHELL :: "string option"
  env_NPM_TOKEN :: "string option"
  keys :: "string list"
  answer :: "string option"
  fails :: "ioop \<Rightarrow> bool"
  npm_whoami :: "string \<Rightarrow> string + string"
  shell_add :: "string \<Rightarrow> world \<Rightarrow> world option"

text \<open>
  How a run ends: \<^verbatim>\<open>process.exit(n)\<close> or the end of \<^verbatim>\<open>main\<close> (code 0), an uncaught
  \<^verbatim>\<open>TypeError\<close>, or a wait for terminal input that never comes.
\<close>

datatype status = Exit nat | UncaughtTypeError | Blocked

datatype 'a step = Next 'a world | Halt status world

definition and_then :: "'a step \<Rightarrow> ('a \<Rightarrow> world \<Rightarrow> 'b step) \<Rightarrow> 'b step" where
  "and_then s f = (case s of Next a w \<Rightarrow> f a w | Halt st w \<Rightarrow> Halt st w)"

definition say :: "msg \<Rightarrow> world \<Rightarrow> world" where
  "say m w = w\<lparr>console := console w @ [m]\<rparr>"

definition ran :: "cmd \<Rightarrow> world \<Rightarrow> world" where
  "ran c w = w\<lparr>cmds := cmds w @ [c]\<rparr>"

definition fatal :: "fatal_reason \<Rightarrow> world \<Rightarrow> 'a step" where
  "fatal r w = Halt (Exit 1) (say (Fatal r) w)"

section \<open>Terminal input\<close>

text \<open>
  \<^verbatim>\<open>readHidden\<close>: the listener \<^verbatim>\<open>onData\<close> runs on each chunk the terminal delivers, with
  the buffer so far. Enter resolves, Ctrl-C is fatal, anything else is buffered.
\<close>

fun onData :: "string list \<Rightarrow> string \<Rightarrow> world \<Rightarrow> string step" where
  "onData [] buf w = Halt Blocked w"
| "onData (ch # later) buf w =
     (if ch = [CHR 0x0D] \<or> ch = [LF] then Next buf (say Newline w)
      else if ch = [CHR 0x03] then fatal InputInterrupted (say Newline w)
      else onData later (buf @ ch) w)"

definition readHidden :: "env \<Rightarrow> world \<Rightarrow> string step" where
  "readHidden e w = onData (keys e) [] (say HiddenPrompt w)"

text \<open>\<^verbatim>\<open>toLowerCase\<close> on characters below 256: A-Z and the Latin-1 capitals.\<close>

definition js_lower_char :: "char \<Rightarrow> char" where
  "js_lower_char c =
     (let n = (of_char c :: nat)
      in if (65 \<le> n \<and> n \<le> 90) \<or> (192 \<le> n \<and> n \<le> 222 \<and> n \<noteq> 215)
         then char_of (n + 32) else c)"

definition js_toLowerCase :: "string \<Rightarrow> string" where
  "js_toLowerCase s = map js_lower_char s"

definition confirmPrompt :: "env \<Rightarrow> world \<Rightarrow> bool step" where
  "confirmPrompt e w =
     (case answer e of
        None \<Rightarrow> Halt Blocked (say ConfirmQuestion w)
      | Some a \<Rightarrow>
          (let normalized = js_toLowerCase (js_trim a)
           in Next (normalized = ''y'' \<or> normalized = ''yes'') (say ConfirmQuestion w)))"

section \<open>The stages\<close>

text \<open>\<^verbatim>\<open>path.basename\<close> (POSIX): trailing slashes dropped, then the last component.\<close>

definition js_basename :: "string \<Rightarrow> string" where
  "js_basename p =
     rev (takeWhile (\<lambda>c. c \<noteq> CHR ''/'') (dropWhile (\<lambda>c. c = CHR ''/'') (rev p)))"

text \<open>\<^verbatim>\<open>detectRcFile\<close>: \<open>None\<close> is the empty string it returns for an unknown shell.\<close>

definition detectRcFile :: "env \<Rightarrow> world \<Rightarrow> path option \<times> world" where
  "detectRcFile e w =
     (let shellPath = (case env_SHELL e of Some s \<Rightarrow> s | None \<Rightarrow> []);
          currentShell = js_basename shellPath
      in if currentShell = ''zsh'' then (Some Zshrc, w)
         else if currentShell = ''bash'' then
           (if files w Bashrc \<noteq> None then (Some Bashrc, w) else (Some BashProfile, w))
         else (None, say (UnsupportedShellWarning currentShell) w))"

text \<open>
  \<^verbatim>\<open>getToken\<close>, in its two parts: the token is resolved (from the argument, the dry-run
  placeholder or the hidden read), then an empty token is fatal. Calling \<^verbatim>\<open>trim\<close> on
  the boolean \<^verbatim>\<open>true\<close> throws a \<^verbatim>\<open>TypeError\<close>.
\<close>

definition resolveToken :: "config \<Rightarrow> env \<Rightarrow> world \<Rightarrow> string step" where
  "resolveToken cfg e w =
     (if truthy (Some (tokenArg cfg)) then
        (case tokenArg cfg of
           Str s \<Rightarrow> Next (js_trim s) w
         | JTrue \<Rightarrow> Halt UncaughtTypeError w)
      else if dryRun cfg then Next ''DRY_RUN_TOKEN'' (say DryRunPlaceholderToken w)
      else and_then (readHidden e w) (\<lambda>typed w'. Next (js_trim typed) w'))"

definition getToken :: "config \<Rightarrow> env \<Rightarrow> world \<Rightarrow> string step" where
  "getToken cfg e w =
     and_then (resolveToken cfg e w)
       (\<lambda>token w'. if token = [] then fatal EmptyToken w' else Next token w')"

text \<open>
  \<^verbatim>\<open>saveTokenToKeychain\<close>. The script interpolates the token between double quotes into
  a command line for \<^verbatim>\<open>/bin/sh\<close>. Inside double quotes the shell leaves every character
  alone but the dollar sign, the backquote, the double quote and the backslash: a token
  without these four is the password the command stores. For any other token the shell
  is not modelled: the environment says what the command line does to the world, or
  that it fails.
\<close>

definition shell_plain :: "string \<Rightarrow> bool" where
  "shell_plain token \<longleftrightarrow>
     CHR ''$'' \<notin> set token \<and> CHR 0x60 \<notin> set token \<and>
     CHR 0x22 \<notin> set token \<and> CHR 0x5C \<notin> set token"

definition saveTokenToKeychain :: "config \<Rightarrow> env \<Rightarrow> string \<Rightarrow> world \<Rightarrow> unit step" where
  "saveTokenToKeychain cfg e token w =
     (if dryRun cfg then Next () (say DryRunWouldSaveToken w)
      else if fails e VaultAdd then fatal KeychainSaveFailed (ran (SecurityAdd token) w)
      else if shell_plain token then
        Next () (say TokenSaved ((ran (SecurityAdd token) w)\<lparr>vault := Some token\<rparr>))
      else
        (case shell_add e token (ran (SecurityAdd token) w) of
           None \<Rightarrow> fatal KeychainSaveFailed (ran (SecurityAdd token) w)
         | Some w' \<Rightarrow> Next () (say TokenSaved w')))"

definition hasKeychainLoader :: "string \<Rightarrow> bool" where
  "hasKeychainLoader rcContent \<longleftrightarrow>
     js_includes rcContent KEYCHAIN_SERVICE \<and>
     js_includes rcContent ''security find-generic-password''"

definition loader :: string where
  "loader = [LF] @ KEYCHAIN_LOADER_SCRIPT @ [LF]"

text \<open>
  \<^verbatim>\<open>setupRcFile\<close>, in three parts: the file is made to exist, its content is read, the
  loader is appended. A failing operation inside the \<^verbatim>\<open>try\<close> block is fatal.
\<close>

definition ensureRcFile :: "config \<Rightarrow> env \<Rightarrow> path \<Rightarrow> world \<Rightarrow> unit step" where
  "ensureRcFile cfg e rcFile w =
     (if files w rcFile \<noteq> None then Next () w
      else if dryRun cfg then Next () (say (DryRunWouldCreate rcFile) w)
      else
        and_then
          (if home_exists w then Next () w
           else if fails e MkdirHome then fatal MkdirFailed w
           else Next () (w\<lparr>home_exists := True\<rparr>))
          (\<lambda>_ w1.
             if fails e (WriteFile rcFile) then fatal (RcWriteFailed rcFile) w1
             else Next () (say (RcCreated rcFile) (w1\<lparr>files := (files w1)(rcFile \<mapsto> [])\<rparr>))))"

definition readRcFile :: "env \<Rightarrow> path \<Rightarrow> world \<Rightarrow> string step" where
  "readRcFile e rcFile w =
     (case files w rcFile of
        None \<Rightarrow> Next [] w
      | Some c \<Rightarrow> if fails e (ReadFile rcFile) then fatal (RcWriteFailed rcFile) w else Next c w)"

definition appendLoader :: "config \<Rightarrow> env \<Rightarrow> path \<Rightarrow> string \<Rightarrow> world \<Rightarrow> unit step" where
  "appendLoader cfg e rcFile rcContent w =
     (if \<not> hasKeychainLoader rcContent then
        (if dryRun cfg then Next () (say (DryRunWouldAppend rcFile loader) w)
         else if fails e (AppendFile rcFile) then fatal (RcWriteFailed rcFile) w
         else Next () (say (LoaderAppended rcFile)
                (w\<lparr>files := (files w)(rcFile \<mapsto>
                     (case files w rcFile of None \<Rightarrow> [] | Some c \<Rightarrow> c) @ loader)\<rparr>)))
      else Next () (say (LoaderSkipped rcFile) w))"

definition setupRcFile :: "config \<Rightarrow> env \<Rightarrow> world \<Rightarrow> unit step" where
  "setupRcFile cfg e w =
     (case detectRcFile e w of
        (None, w0) \<Rightarrow> fatal UnsupportedShell w0
      | (Some rcFile, w0) \<Rightarrow>
          and_then (ensureRcFile cfg e rcFile w0) (\<lambda>_ w1.
          and_then (readRcFile e rcFile w1) (\<lambda>rcContent w2.
          appendLoader cfg e rcFile rcContent w2)))"

text \<open>
  \<^verbatim>\<open>setupNpmrc\<close>. The two desired lines, the two patterns of the filter, and the lines
  of the existing file: split at line feeds, blank lines dropped.
\<close>

definition registryLine :: "config \<Rightarrow> string" where
  "registryLine cfg = ''@'' @ to_string (org cfg) @ '':registry=https://npm.pkg.github.com''"

definition authTokenLine :: string where
  "authTokenLine = ''//npm.pkg.github.com/:_authToken=${NPM_TOKEN}''"

definition npmrcLines :: "config \<Rightarrow> string list" where
  "npmrcLines cfg = [registryLine cfg, authTokenLine]"

definition npmrcContent :: "config \<Rightarrow> string" where
  "npmrcContent cfg = js_join LF (npmrcLines cfg) @ [LF]"

definition existingLines :: "string \<Rightarrow> string list" where
  "existingLines existingContent = filter (\<lambda>line. js_trim line \<noteq> []) (js_split LF existingContent)"

definition isRegistryLine :: "string \<Rightarrow> bool" where
  "isRegistryLine line = js_endsWith line '':registry=https://npm.pkg.github.com''"

definition isAuthTokenLine :: "string \<Rightarrow> bool" where
  "isAuthTokenLine line = js_startsWith line ''//npm.pkg.github.com/:_authToken=''"

definition keepLine :: "string \<Rightarrow> bool" where
  "keepLine line =
     (if isRegistryLine line then False
      else if isAuthTokenLine line then False
      else True)"

definition filteredLines :: "string \<Rightarrow> string list" where
  "filteredLines existingContent = filter keepLine (existingLines existingContent)"

definition alreadyConfigured :: "config \<Rightarrow> string \<Rightarrow> bool" where
  "alreadyConfigured cfg existingContent \<longleftrightarrow>
     registryLine cfg \<in> set (existingLines existingContent) \<and>
     authTokenLine \<in> set (existingLines existingContent)"

definition updatedContent :: "config \<Rightarrow> string \<Rightarrow> string" where
  "updatedContent cfg existingContent =
     js_join LF (filteredLines existingContent @ npmrcLines cfg) @ [LF]"

definition setupNpmrc :: "config \<Rightarrow> env \<Rightarrow> world \<Rightarrow> unit step" where
  "setupNpmrc cfg e w =
     (if dryRun cfg then Next () (say (DryRunWouldWriteNpmrc (npmrcContent cfg)) w)
      else if fails e AccessHome then fatal NpmrcFailed w
      else
        (case files w Npmrc of
           None \<Rightarrow>
             if fails e (WriteFile Npmrc) then fatal NpmrcFailed w
             else Next () (say NpmrcCreated (w\<lparr>files := (files w)(Npmrc \<mapsto> npmrcContent cfg)\<rparr>))
         | Some existingContent \<Rightarrow>
             if fails e (ReadFile Npmrc) then fatal NpmrcFailed w
             else if alreadyConfigured cfg existingContent then Next () (say NpmrcSkipped w)
             else if fails e (WriteFile Npmrc) then fatal NpmrcFailed w
             else Next () (say NpmrcUpdated
                    (w\<lparr>files := (files w)(Npmrc \<mapsto> updatedContent cfg existingContent)\<rparr>))))"

text \<open>
  The registry stage of the two earlier copies of the script (inside their \<^verbatim>\<open>main\<close>):
  the same code in both, an unconditional overwrite.
\<close>

definition npmrcContent_v1 :: "config \<Rightarrow> string" where
  "npmrcContent_v1 cfg =
     ''@'' @ to_string (org cfg) @ '':registry=https://npm.pkg.github.com'' @ [LF] @
     ''//npm.pkg.github.com/:_authToken=${NPM_TOKEN}'' @ [LF]"

definition setupNpmrc_v1 :: "config \<Rightarrow> env \<Rightarrow> world \<Rightarrow> unit step" where
  "setupNpmrc_v1 cfg e w =
     (if dryRun cfg then Next () (say (DryRunWouldWriteNpmrc (npmrcContent_v1 cfg)) w)
      else if fails e (WriteFile Npmrc) then fatal NpmrcWriteFailed w
      else Next () (say NpmrcWritten (w\<lparr>files := (files w)(Npmrc \<mapsto> npmrcContent_v1 cfg)\<rparr>)))"

definition npmrcContent_v2 :: "config \<Rightarrow> string" where
  "npmrcContent_v2 cfg =
     ''@'' @ to_string (org cfg) @ '':registry=https://npm.pkg.github.com'' @ [LF] @
     ''//npm.pkg.github.com/:_authToken=${NPM_TOKEN}'' @ [LF]"

definition setupNpmrc_v2 :: "config \<Rightarrow> env \<Rightarrow> world \<Rightarrow> unit step" where
  "setupNpmrc_v2 cfg e w =
     (if dryRun cfg then Next () (say (DryRunWouldWriteNpmrc (npmrcContent_v2 cfg)) w)
      else if fails e (WriteFile Npmrc) then fatal NpmrcWriteFailed w
      else Next () (say NpmrcWritten (w\<lparr>files := (files w)(Npmrc \<mapsto> npmrcContent_v2 cfg)\<rparr>)))"

text \<open>\<^verbatim>\<open>checkNpmToken\<close>: output only.\<close>

definition checkNpmToken :: "env \<Rightarrow> world \<Rightarrow> world" where
  "checkNpmToken e w =
     (case env_NPM_TOKEN e of
        Some t \<Rightarrow>
          if t \<noteq> [] then say (NpmTokenLoaded (length t)) (say CheckingNpmToken w)
          else say NpmTokenNotLoaded (say CheckingNpmToken w)
      | None \<Rightarrow> say NpmTokenNotLoaded (say CheckingNpmToken w))"

text \<open>
  \<^verbatim>\<open>getKeychainToken\<close>: the Keychain command prints the stored secret and a line feed; it
  fails when there is no entry or when the environment says so, and then the value is
  \<^verbatim>\<open>process.env.NPM_TOKEN || ''\<close>.
\<close>

definition vaultRead :: "env \<Rightarrow> world \<Rightarrow> string option" where
  "vaultRead e w =
     (if fails e VaultFind then None
      else (case vault w of None \<Rightarrow> None | Some secret \<Rightarrow> Some (secret @ [LF])))"

definition getKeychainToken :: "env \<Rightarrow> world \<Rightarrow> string \<times> world" where
  "getKeychainToken e w =
     (case vaultRead e w of
        Some printed \<Rightarrow> (js_trim printed, ran SecurityFind w)
      | None \<Rightarrow> ((case env_NPM_TOKEN e of Some t \<Rightarrow> t | None \<Rightarrow> []), ran SecurityFind w))"

text \<open>\<^verbatim>\<open>validateNpm\<close>. Its parameter \<open>token\<close> is not used by the source either.\<close>

definition validateNpm :: "config \<Rightarrow> env \<Rightarrow> string \<Rightarrow> world \<Rightarrow> unit step" where
  "validateNpm cfg e token w =
     (if dryRun cfg then Next () (say DryRunVerifyHint (say DryRunWouldVerify w))
      else
        (case getKeychainToken e w of (keychainToken, w1) \<Rightarrow>
           if keychainToken = [] then Halt (Exit 1) (say NoCredential w1)
           else
             (case npm_whoami e keychainToken of
                Inr printed \<Rightarrow>
                  if js_trim printed \<noteq> [] then
                    Next () (say VerifyHint (say (VerifyOk (js_trim printed))
                               (ran (NpmWhoami keychainToken) w1)))
                  else Halt (Exit 1) (say VerifyFailed (ran (NpmWhoami keychainToken) w1))
              | Inl captured \<Rightarrow>
                  if captured \<noteq> [] then
                    Halt (Exit 1) (say (NpmOutput captured) (say VerifyFailed
                                     (ran (NpmWhoami keychainToken) w1)))
                  else Halt (Exit 1) (say VerifyFailed (ran (NpmWhoami keychainToken) w1)))))"

section \<open>The whole run\<close>

text \<open>
  The top level of the script and its \<^verbatim>\<open>main\<close>: the platform guard, the parser, the help
  check, then the stages in order. The end of \<^verbatim>\<open>main\<close> is exit code 0.
\<close>

definition stages :: "config \<Rightarrow> env \<Rightarrow> world \<Rightarrow> unit step" where
  "stages cfg e w =
     and_then (getToken cfg e w) (\<lambda>token w1.
     and_then
       (if \<not> dryRun cfg then
          and_then (confirmPrompt e w1) (\<lambda>ok w2.
            if \<not> ok then Halt (Exit 0) (say Cancelled w2) else Next () w2)
        else Next () w1) (\<lambda>_ w2.
     and_then (saveTokenToKeychain cfg e token w2) (\<lambda>_ w3.
     and_then (setupRcFile cfg e w3) (\<lambda>_ w4.
     and_then (setupNpmrc cfg e w4) (\<lambda>_ w5.
     validateNpm cfg e token (checkNpmToken e w5))))))"

definition finish :: "unit step \<Rightarrow> status \<times> world" where
  "finish s = (case s of Next _ w \<Rightarrow> (Exit 0, w) | Halt st w \<Rightarrow> (st, w))"

definition run :: "env \<Rightarrow> world \<Rightarrow> status \<times> world" where
  "run e w =
     (if platform e \<noteq> ''darwin'' then (Exit 1, say (Fatal UnsupportedOS) w)
      else
        (let parsed = parseArgs (argv e)
         in if help_requested parsed then (Exit 0, say Usage w)
            else finish (stages (config_of parsed) e w)))"

text \<open>
  Running the shell profile stage again and again, each run on the world the previous
  one left.
\<close>

fun setupRcFile_times :: "nat \<Rightarrow> config \<Rightarrow> env \<Rightarrow> world \<Rightarrow> unit step" where
  "setupRcFile_times 0 cfg e w = Next () w"
| "setupRcFile_times (Suc n) cfg e w =
     and_then (setupRcFile cfg e w) (\<lambda>_ w'. setupRcFile_times n cfg e w')"

text \<open>The number of places of a text where a pattern occurs.\<close>

fun occurrences :: "string \<Rightarrow> string \<Rightarrow> nat" where
  "occurrences p [] = (if p = [] then 1 else 0)"
| "occurrences p (x # xs) = (if prefix p (x # xs) then 1 else 0) + occurrences p xs"

section \<open>Auxiliary notions and sample inputs\<close>

text \<open>The world a step ends in, and the worlds that differ only by console output.\<close>

definition world_of :: "'a step \<Rightarrow> world" where
  "world_of s = (case s of Next _ w \<Rightarrow> w | Halt _ w \<Rightarrow> w)"

definition only_said :: "world \<Rightarrow> world \<Rightarrow> bool" where
  "only_said w w' \<longleftrightarrow> (\<exists>ms. w' = w\<lparr>console := console w @ ms\<rparr>)"

text \<open>
  A sample machine: macOS, \<^verbatim>\<open>zsh\<close>, no \<^verbatim>\<open>NPM_TOKEN\<close> in the environment, an operator who
  pastes the token \<^verbatim>\<open>ghp_abc\<close>, presses Enter and answers \<^verbatim>\<open>y\<close>, no failing operation,
  and a registry that knows this token as \<^verbatim>\<open>octocat\<close>. The world starts with an empty
  Keychain and an empty home directory.
\<close>

definition no_failure :: "ioop \<Rightarrow> bool" where
  "no_failure op = False"

definition registry :: "string \<Rightarrow> string + string" where
  "registry t = (if t = ''ghp_abc'' then Inr (''octocat'' @ [LF]) else Inl ''npm ERR! code E401'')"

definition mac :: "string list \<Rightarrow> env" where
  "mac args =
     \<lparr> platform = ''darwin'',
       argv = ''node'' # ''setup-npm-github.js'' # args,
       env_SHELL = Some ''/bin/zsh'',
       env_NPM_TOKEN = None,
       keys = [''ghp_abc'', [CHR 0x0D]],
       answer = Some ''y'',
       fails = no_failure,
       npm_whoami = registry,
       shell_add = (\<lambda>token w. None) \<rparr>"

definition fresh :: world where
  "fresh = \<lparr> vault = None, files = Map.empty, home_exists = True, cmds = [], console = [] \<rparr>"

text \<open>
  A text file given by its lines, each ended by a line feed; a world whose only file is
  the registry config file; and the configuration of a run with \<^verbatim>\<open>--org acme\<close>.
\<close>

definition text_of :: "string list \<Rightarrow> string" where
  "text_of ls = concat (map (\<lambda>l. l @ [LF]) ls)"

definition with_npmrc :: "string \<Rightarrow> world" where
  "with_npmrc content = fresh\<lparr>files := [Npmrc \<mapsto> content]\<rparr>"

definition with_zshrc :: "string \<Rightarrow> world" where
  "with_zshrc content = fresh\<lparr>files := [Zshrc \<mapsto> content]\<rparr>"

definition acme :: config where
  "acme = config_of (parseArgs (argv (mac [''--org'', ''acme''])))"

text \<open>Sample contents of the registry config file.\<close>

definition stale_npmrc :: string where
  "stale_npmrc = text_of [''color=true'', [], ''@old:registry=https://npm.pkg.github.com'',
      ''//npm.pkg.github.com/:_authToken=ghp_old'', ''fund=false'']"

definition configured_npmrc :: string where
  "configured_npmrc = text_of [''@old:registry=https://npm.pkg.github.com'',
      ''@acme:registry=https://npm.pkg.github.com'',
      ''//npm.pkg.github.com/:_authToken=${NPM_TOKEN}'', ''color=true'']"

definition literal_npmrc :: string where
  "literal_npmrc = text_of [''@acme:registry=https://npm.pkg.github.com'',
      ''//npm.pkg.github.com/:_authToken=${NPM_TOKEN}'',
      ''//npm.pkg.github.com/:_authToken=ghp_literal'']"

definition doubled_npmrc :: string where
  "doubled_npmrc = text_of [''@acme:registry=https://npm.pkg.github.com'',
      ''@acme:registry=https://npm.pkg.github.com'',
      ''//npm.pkg.github.com/:_authToken=ghp_old'']"

definition plain_npmrc :: string where
  "plain_npmrc = text_of [''color=true'']"

text \<open>
  Sample contents of the shell profile: one that names both markers in a comment, and one
  that does not.
\<close>

definition marked_zshrc :: string where
  "marked_zshrc = text_of [''# GITHUB_PACKAGES_NPM_TOKEN: see security find-generic-password'']"

definition plain_zshrc :: string where
  "plain_zshrc = text_of [''export PATH=/usr/local/bin:$PATH'']"

text \<open>
  The sample machine with another token in the environment variable, a Keychain that
  holds the token, a Keychain that holds two blanks, and an operator who types one blank
  and presses Enter.
\<close>

definition mac_with_env_token :: env where
  "mac_with_env_token = (mac [])\<lparr>env_NPM_TOKEN := Some ''ghp_env''\<rparr>"

definition stored :: world where
  "stored = fresh\<lparr>vault := Some ''ghp_abc''\<rparr>"

definition blank_stored :: world where
  "blank_stored = fresh\<lparr>vault := Some ''  ''\<rparr>"

definition mac_blank_entry :: env where
  "mac_blank_entry = (mac [])\<lparr>keys := ['' '', [CHR 0x0D]]\<rparr>"

section \<open>Properties\<close>

subsection \<open>Facts about the string functions\<close>

lemma js_includes_char: "js_includes s [c] \<longleftrightarrow> c \<in> set s"
proof
  assume "js_includes s [c]"
  then obtain ps ss where "s = ps @ [c] @ ss"
    by (auto simp: js_includes_def sublist_def)
  then show "c \<in> set s" by simp
next
  assume "c \<in> set s"
  then obtain ps ss where "s = ps @ c # ss"
    by (auto simp: in_set_conv_decomp)
  then have "s = ps @ [c] @ ss" by simp
  then show "js_includes s [c]"
    unfolding js_includes_def sublist_def by blast
qed

lemma js_split_not_Nil: "js_split c s \<noteq> []"
  by (induction s) (auto split: list.splits)

lemma js_split_free: "c \<notin> set s \<Longrightarrow> js_split c s = [s]"
  by (induction s) auto

lemma js_split_append:
  "c \<notin> set k \<Longrightarrow> js_split c (k @ c # v) = k # js_split c v"
  by (induction k) auto

lemma js_join_split: "js_join c (js_split c s) = s"
proof (induction s)
  case Nil
  show ?case by simp
next
  case (Cons x xs)
  obtain y ys where sp: "js_split c xs = y # ys"
    using js_split_not_Nil [of c xs] by (cases "js_split c xs") auto
  show ?case
  proof (cases "x = c")
    case True
    with Cons sp show ?thesis by simp
  next
    case False
    with Cons sp show ?thesis by (cases ys) auto
  qed
qed

lemma startsWith_dashes: "js_startsWith (''--'' @ k) ''--''"
  by (simp add: js_startsWith_def)

lemma startsWith_split: "js_startsWith a ''--'' \<Longrightarrow> a = ''--'' @ drop 2 a"
  unfolding js_startsWith_def prefix_def by auto

lemma hd_js_split: "hd (js_split c s) = takeWhile (\<lambda>x. x \<noteq> c) s"
proof (induction s)
  case Nil show ?case by simp
next
  case (Cons x xs)
  then show ?case using js_split_not_Nil [of c xs]
    by (cases "js_split c xs") auto
qed

lemma split_at_first:
  "c \<in> set s \<Longrightarrow> s = takeWhile (\<lambda>x. x \<noteq> c) s @ c # tl (dropWhile (\<lambda>x. x \<noteq> c) s)"
  by (induction s) auto

lemma js_split_parts_free: "x \<in> set (js_split c s) \<Longrightarrow> c \<notin> set x"
proof (induction s arbitrary: x)
  case Nil
  then show ?case by simp
next
  case (Cons a s)
  obtain y ys where sp: "js_split c s = y # ys"
    using js_split_not_Nil [of c s] by (cases "js_split c s") auto
  show ?case
  proof (cases "a = c")
    case True
    with Cons show ?thesis by auto
  next
    case False
    with Cons.prems sp have "x = a # y \<or> x \<in> set ys" by auto
    then show ?thesis
    proof
      assume "x = a # y"
      moreover have "c \<notin> set y" using Cons.IH [of y] sp by simp
      ultimately show ?thesis using False by auto
    next
      assume "x \<in> set ys"
      then show ?thesis using Cons.IH [of x] sp by simp
    qed
  qed
qed

lemma js_split_join:
  "xs \<noteq> [] \<Longrightarrow> \<forall>x\<in>set xs. c \<notin> set x \<Longrightarrow> js_split c (js_join c xs) = xs"
proof (induction c xs rule: js_join.induct)
  case (1 c)
  then show ?case by simp
next
  case (2 c x)
  then show ?case by (simp add: js_split_free)
next
  case (3 c x y ys)
  then have "js_split c (js_join c (y # ys)) = y # ys" by simp
  moreover have "c \<notin> set x" using 3 by simp
  ultimately show ?case by (simp add: js_split_append del: js_split.simps)
qed

lemma js_join_snoc_empty: "xs \<noteq> [] \<Longrightarrow> js_join c (xs @ [[]]) = js_join c xs @ [c]"
  by (induction c xs rule: js_join.induct) auto

lemma js_split_terminated:
  assumes "xs \<noteq> []" "\<forall>x\<in>set xs. c \<notin> set x"
  shows "js_split c (js_join c xs @ [c]) = xs @ [[]]"
proof -
  have "js_split c (js_join c (xs @ [[]])) = xs @ [[]]"
    using assms by (intro js_split_join) auto
  then show ?thesis using assms(1) by (simp add: js_join_snoc_empty)
qed

subsection \<open>Facts about the parser\<close>

lemma set_prop_lookup:
  "set_prop out a v b = (if a = b \<and> a \<noteq> ''__proto__'' then Some v else out b)"
  unfolding set_prop_def by (cases "a = ''__proto__''") simp_all

lemma split_key_value:
  assumes "c \<notin> set k"
  shows "hd (js_split c (k @ c # v)) = k" "js_join c (tl (js_split c (k @ c # v))) = v"
  using assms by (simp_all add: js_split_append js_join_split)

lemma parse_eq_last:
  assumes "CHR ''='' \<notin> set k1"
  shows "parse_loop [''--'' @ k1 @ CHR ''='' # r] out = set_prop out k1 (Str r)"
proof -
  have a: "js_startsWith (''--'' @ k1 @ CHR ''='' # r) ''--''"
    by (rule startsWith_dashes)
  have b: "js_includes (''--'' @ k1 @ CHR ''='' # r) ''=''"
    by (simp add: js_includes_char)
  have c: "drop 2 (''--'' @ k1 @ CHR ''='' # r) = k1 @ CHR ''='' # r"
    by simp
  show ?thesis
    unfolding parse_loop.simps(2) c using a b
    by (simp only: split_key_value [OF assms] Let_def not_True_eq_False if_False if_True)
qed

lemma parse_eq_cons:
  assumes "CHR ''='' \<notin> set k1"
  shows "parse_loop ((''--'' @ k1 @ CHR ''='' # r) # nxt # rest) out =
           parse_loop (nxt # rest) (set_prop out k1 (Str r))"
proof -
  have a: "js_startsWith (''--'' @ k1 @ CHR ''='' # r) ''--''"
    by (rule startsWith_dashes)
  have b: "js_includes (''--'' @ k1 @ CHR ''='' # r) ''=''"
    by (simp add: js_includes_char)
  have c: "drop 2 (''--'' @ k1 @ CHR ''='' # r) = k1 @ CHR ''='' # r"
    by simp
  show ?thesis
    unfolding parse_loop.simps(3) c using a b
    by (simp only: split_key_value [OF assms] Let_def not_True_eq_False if_False if_True)
qed

lemma parse_skip_last: "\<not> js_startsWith a ''--'' \<Longrightarrow> parse_loop [a] out = out"
  by simp

lemma parse_value_cons:
  assumes "CHR ''='' \<notin> set k" "v \<noteq> []" "\<not> js_startsWith v ''--''"
  shows "parse_loop ((''--'' @ k) # v # rest) out = parse_loop rest (set_prop out k (Str v))"
proof -
  have a: "js_startsWith (''--'' @ k) ''--''"
    by (rule startsWith_dashes)
  have b: "\<not> js_includes (''--'' @ k) ''=''"
    using assms(1) by (simp add: js_includes_char)
  have c: "drop 2 (''--'' @ k) = k"
    by simp
  show ?thesis
    unfolding parse_loop.simps(3) c using a b assms(2,3)
    by (simp only: Let_def not_True_eq_False not_False_eq_True if_False if_True simp_thms)
qed

lemma key_with_eq:
  assumes "CHR ''='' \<in> set k"
  obtains k1 k2 where "k = k1 @ CHR ''='' # k2" "CHR ''='' \<notin> set k1" "k1 \<noteq> k"
proof -
  obtain k1 k2 where k: "k = k1 @ CHR ''='' # k2" "CHR ''='' \<notin> set k1"
    using assms by (meson split_list_first)
  then have "k1 \<noteq> k" by auto
  with k show ?thesis using that by blast
qed

lemma parse_eq_form:
  "parseArgs [n, s, ''--'' @ k @ CHR ''='' # v] k =
     (if CHR ''='' \<in> set k \<or> k = ''__proto__'' then None else Some (Str v))"
proof (cases "CHR ''='' \<in> set k")
  case False
  have "parseArgs [n, s, ''--'' @ k @ CHR ''='' # v] = set_prop Map.empty k (Str v)"
    unfolding parseArgs_def using parse_eq_last [OF False] by simp
  then show ?thesis using False by (simp add: set_prop_lookup)
next
  case True
  then obtain k1 k2 where k: "k = k1 @ CHR ''='' # k2" "CHR ''='' \<notin> set k1" "k1 \<noteq> k"
    by (rule key_with_eq)
  have "''--'' @ k @ CHR ''='' # v = ''--'' @ k1 @ CHR ''='' # (k2 @ CHR ''='' # v)"
    using k(1) by simp
  then have "parseArgs [n, s, ''--'' @ k @ CHR ''='' # v] = set_prop Map.empty k1 (Str (k2 @ CHR ''='' # v))"
    unfolding parseArgs_def using parse_eq_last [OF k(2)] by simp
  then show ?thesis using True k(3) by (simp add: set_prop_lookup)
qed

lemma parse_space_form:
  assumes "v \<noteq> []" "\<not> js_startsWith v ''--''"
  shows "parseArgs [n, s, ''--'' @ k, v] k =
     (if CHR ''='' \<in> set k \<or> k = ''__proto__'' then None else Some (Str v))"
proof (cases "CHR ''='' \<in> set k")
  case False
  have "parseArgs [n, s, ''--'' @ k, v] = set_prop Map.empty k (Str v)"
    unfolding parseArgs_def using parse_value_cons [OF False assms] by simp
  then show ?thesis using False by (simp add: set_prop_lookup)
next
  case True
  then obtain k1 k2 where k: "k = k1 @ CHR ''='' # k2" "CHR ''='' \<notin> set k1" "k1 \<noteq> k"
    by (rule key_with_eq)
  have "''--'' @ k = ''--'' @ k1 @ CHR ''='' # k2"
    using k(1) by simp
  then have "parseArgs [n, s, ''--'' @ k, v] = set_prop Map.empty k1 (Str k2)"
    unfolding parseArgs_def using parse_eq_cons [OF k(2), of k2 v "[]"] parse_skip_last [OF assms(2)] by simp
  then show ?thesis using True k(3) by (simp add: set_prop_lookup)
qed

lemma eq_form_key:
  assumes "js_startsWith a ''--''" "js_includes a ''=''" "hd (js_split CHR ''='' (drop 2 a)) = k"
  shows "js_startsWith a (''--'' @ k @ ''='')"
proof -
  define b where "b = drop 2 a"
  define r where "r = tl (dropWhile (\<lambda>x. x \<noteq> CHR ''='') b)"
  have a: "a = ''--'' @ b" unfolding b_def using assms(1) by (rule startsWith_split)
  have "CHR ''='' \<in> set a" using assms(2) by (simp add: js_includes_char)
  then have "CHR ''='' \<in> set b" by (subst (asm) a) simp
  then have "b = takeWhile (\<lambda>x. x \<noteq> CHR ''='') b @ CHR ''='' # r"
    unfolding r_def by (rule split_at_first)
  then have "b = k @ CHR ''='' # r"
    using assms(3) by (simp add: hd_js_split b_def)
  then have "a = (''--'' @ k @ ''='') @ r"
    using a by simp
  then show ?thesis unfolding js_startsWith_def prefix_def by blast
qed

lemma drop2_key: "js_startsWith a ''--'' \<Longrightarrow> (a = ''--'' @ k) = (drop 2 a = k)"
proof -
  assume "js_startsWith a ''--''"
  then have a: "a = ''--'' @ drop 2 a" by (rule startsWith_split)
  show ?thesis
  proof
    assume "a = ''--'' @ k" then show "drop 2 a = k" by simp
  next
    assume "drop 2 a = k" with a show "a = ''--'' @ k" by simp
  qed
qed

lemma eq_step_keeps:
  assumes "js_startsWith a ''--''" "js_includes a ''=''"
    and "\<not> js_startsWith a (''--'' @ k @ ''='')" "truthy (out k)"
  shows "truthy (set_prop out (hd (js_split CHR ''='' (drop 2 a))) v k)"
proof -
  have "hd (js_split CHR ''='' (drop 2 a)) \<noteq> k"
    using eq_form_key [OF assms(1,2)] assms(3) by blast
  with assms(4) show ?thesis by (simp add: set_prop_lookup)
qed

lemma flag_step_sets:
  assumes "js_startsWith a ''--''" "k \<noteq> ''__proto__''" "truthy (Some v)"
    and "a = ''--'' @ k \<or> truthy (out k)"
  shows "truthy (set_prop out (drop 2 a) v k)"
  using assms drop2_key [OF assms(1), of k] by (auto simp: set_prop_lookup)

lemma bare_flag_truthy:
  assumes k: "CHR ''='' \<notin> set k" "k \<noteq> ''__proto__''"
  shows "(''--'' @ k) \<in> set args \<or> truthy (out k) \<Longrightarrow>
         \<forall>a\<in>set args. \<not> js_startsWith a (''--'' @ k @ ''='') \<Longrightarrow>
         truthy (parse_loop args out k)"
proof (induction args out rule: parse_loop.induct)
  case (1 out)
  then show ?case by simp
next
  case (2 a out)
  from "2.prems"(2) have nk: "\<not> js_startsWith a (''--'' @ k @ ''='')" by simp
  from "2.prems"(1) have ak: "a = ''--'' @ k \<or> truthy (out k)" by auto
  show ?case
  proof (cases "js_startsWith a ''--''")
    case False
    then have "a \<noteq> ''--'' @ k" using startsWith_dashes by auto
    with ak False show ?thesis by simp
  next
    case sw: True
    show ?thesis
    proof (cases "js_includes a ''=''")
      case True
      then have "a \<noteq> ''--'' @ k" using k(1) by (auto simp: js_includes_char)
      with ak have "truthy (out k)" by simp
      from eq_step_keeps [of a k out, OF sw True nk this] sw True show ?thesis
        by (simp add: Let_def)
    next
      case False
      from flag_step_sets [of a k JTrue out, OF sw k(2) _ ak] sw False show ?thesis by simp
    qed
  qed
next
  case (3 a nxt rest out)
  from "3.prems"(2) have nk: "\<not> js_startsWith a (''--'' @ k @ ''='')"
    and nrest: "\<forall>b\<in>set (nxt # rest). \<not> js_startsWith b (''--'' @ k @ ''='')"
    and nrest': "\<forall>b\<in>set rest. \<not> js_startsWith b (''--'' @ k @ ''='')" by simp_all
  show ?case
  proof (cases "js_startsWith a ''--''")
    case False
    then have "a \<noteq> ''--'' @ k" using startsWith_dashes by auto
    with "3.prems"(1) have "''--'' @ k \<in> set (nxt # rest) \<or> truthy (out k)" by auto
    from "3.IH"(1) [OF False this nrest] False show ?thesis by simp
  next
    case sw: True
    show ?thesis
    proof (cases "js_includes a ''=''")
      case True
      then have ne: "a \<noteq> ''--'' @ k" using k(1) by (auto simp: js_includes_char)
      let ?out = "set_prop out (hd (js_split CHR ''='' (drop 2 a)))
                    (Str (js_join CHR ''='' (tl (js_split CHR ''='' (drop 2 a)))))"
      have "''--'' @ k \<in> set (nxt # rest) \<or> truthy (?out k)"
      proof (cases "truthy (out k)")
        case True
        from eq_step_keeps [of a k out, OF sw \<open>js_includes a ''=''\<close> nk True] show ?thesis by blast
      next
        case False
        with "3.prems"(1) ne show ?thesis by auto
      qed
      from "3.IH"(2) [OF _ True refl this nrest] sw True show ?thesis
        by (simp add: Let_def)
    next
      case False
      show ?thesis
      proof (cases "nxt \<noteq> [] \<and> \<not> js_startsWith nxt ''--''")
        case True
        then have nn: "nxt \<noteq> ''--'' @ k" using startsWith_dashes by auto
        have tv: "truthy (Some (Str nxt))" using True by simp
        have "''--'' @ k \<in> set rest \<or> truthy (set_prop out (drop 2 a) (Str nxt) k)"
        proof (cases "a = ''--'' @ k \<or> truthy (out k)")
          case True
          from flag_step_sets [of a k "Str nxt" out, OF sw k(2) tv True] show ?thesis by blast
        next
          case False
          with "3.prems"(1) nn show ?thesis by auto
        qed
        from "3.IH"(3) [OF _ _ True this nrest'] sw False True show ?thesis by simp
      next
        case nc: False
        have "''--'' @ k \<in> set (nxt # rest) \<or> truthy (set_prop out (drop 2 a) JTrue k)"
        proof (cases "a = ''--'' @ k \<or> truthy (out k)")
          case True
          from flag_step_sets [of a k JTrue out, OF sw k(2) _ True] show ?thesis by simp
        next
          case False
          with "3.prems"(1) show ?thesis by auto
        qed
        from "3.IH"(4) [OF _ _ nc this nrest] sw False nc show ?thesis by auto
      qed
    qed
  qed
qed

lemma parse_loop_prefix:
  "js_startsWith x ''--'' \<Longrightarrow> \<exists>out'. parse_loop (pre @ x # rest) out = parse_loop (x # rest) out'"
proof (induction pre out rule: parse_loop.induct)
  case (1 out)
  show ?case by auto
next
  case (2 a out)
  show ?case
  proof (cases "\<not> js_startsWith a ''--''")
    case True
    then show ?thesis by auto
  next
    case False
    then show ?thesis using 2 by (cases "js_includes a ''=''") (auto simp: Let_def)
  qed
next
  case (3 a nxt rest' out)
  obtain ys where ys: "(nxt # rest') @ x # rest = nxt # ys" "rest' @ x # rest = ys" by simp
  show ?case
  proof (cases "\<not> js_startsWith a ''--''")
    case True
    from "3.IH"(1) [OF True "3.prems"] True show ?thesis by simp
  next
    case sw: False
    show ?thesis
    proof (cases "js_includes a ''=''")
      case True
      from "3.IH"(2) [OF sw True refl "3.prems"] sw True show ?thesis by (simp add: Let_def)
    next
      case False
      show ?thesis
      proof (cases "nxt \<noteq> [] \<and> \<not> js_startsWith nxt ''--''")
        case True
        from "3.IH"(3) [OF sw False True "3.prems"] sw False True show ?thesis
          by (cases rest') auto
      next
        case nc: False
        from "3.IH"(4) [OF sw False nc "3.prems"] sw False nc show ?thesis by auto
      qed
    qed
  qed
qed

lemma no_assign_keeps:
  "\<forall>a\<in>set args. a \<noteq> ''--'' @ k \<and> \<not> js_startsWith a (''--'' @ k @ ''='') \<Longrightarrow>
   parse_loop args out k = out k"
proof (induction args out rule: parse_loop.induct)
  case (1 out)
  show ?case by simp
next
  case (2 a out)
  from "2.prems" have ne: "a \<noteq> ''--'' @ k" and nk: "\<not> js_startsWith a (''--'' @ k @ ''='')" by simp_all
  show ?case
  proof (cases "js_startsWith a ''--''")
    case False then show ?thesis by simp
  next
    case sw: True
    show ?thesis
    proof (cases "js_includes a ''=''")
      case True
      have "hd (js_split CHR ''='' (drop 2 a)) \<noteq> k" using eq_form_key [OF sw True] nk by blast
      with sw True show ?thesis by (simp add: Let_def set_prop_lookup)
    next
      case False
      have "drop 2 a \<noteq> k" using drop2_key [OF sw, of k] ne by simp
      with sw False show ?thesis by (simp add: set_prop_lookup)
    qed
  qed
next
  case (3 a nxt rest out)
  from "3.prems" have ne: "a \<noteq> ''--'' @ k" and nk: "\<not> js_startsWith a (''--'' @ k @ ''='')"
    and r1: "\<forall>a\<in>set (nxt # rest). a \<noteq> ''--'' @ k \<and> \<not> js_startsWith a (''--'' @ k @ ''='')"
    and r2: "\<forall>a\<in>set rest. a \<noteq> ''--'' @ k \<and> \<not> js_startsWith a (''--'' @ k @ ''='')"
    by simp_all
  show ?case
  proof (cases "js_startsWith a ''--''")
    case False
    from "3.IH"(1) [OF _ r1] False show ?thesis by simp
  next
    case sw: True
    show ?thesis
    proof (cases "js_includes a ''=''")
      case True
      define out' where "out' = set_prop out (hd (js_split CHR ''='' (drop 2 a)))
                    (Str (js_join CHR ''='' (tl (js_split CHR ''='' (drop 2 a)))))"
      have "hd (js_split CHR ''='' (drop 2 a)) \<noteq> k" using eq_form_key [OF sw True] nk by blast
      then have same: "out' k = out k" by (simp add: out'_def set_prop_lookup)
      have "parse_loop (nxt # rest) out' k = out' k"
        unfolding out'_def using "3.IH"(2) [OF _ True refl r1] sw by simp
      moreover have "parse_loop (a # nxt # rest) out = parse_loop (nxt # rest) out'"
        using sw True by (simp add: Let_def out'_def)
      ultimately show ?thesis using same by simp
    next
      case False
      have dk: "drop 2 a \<noteq> k" using drop2_key [OF sw, of k] ne by simp
      show ?thesis
      proof (cases "nxt \<noteq> [] \<and> \<not> js_startsWith nxt ''--''")
        case True
        define out' where "out' = set_prop out (drop 2 a) (Str nxt)"
        have same: "out' k = out k" using dk by (simp add: out'_def set_prop_lookup)
        have "parse_loop rest out' k = out' k"
          unfolding out'_def using "3.IH"(3) [OF _ False True r2] sw by simp
        moreover have "parse_loop (a # nxt # rest) out = parse_loop rest out'"
          using sw False True by (simp add: out'_def)
        ultimately show ?thesis using same by simp
      next
        case nc: False
        define out' where "out' = set_prop out (drop 2 a) JTrue"
        have same: "out' k = out k" using dk by (simp add: out'_def set_prop_lookup)
        have "parse_loop (nxt # rest) out' k = out' k"
          unfolding out'_def using "3.IH"(4) [OF _ False nc r1] sw by simp
        moreover have "parse_loop (a # nxt # rest) out = parse_loop (nxt # rest) out'"
          using sw False nc by (auto simp: out'_def)
        ultimately show ?thesis using same by simp
      qed
    qed
  qed
qed

lemma bare_step:
  assumes "CHR ''='' \<notin> set k" "post = [] \<or> hd post = [] \<or> js_startsWith (hd post) ''--''"
  shows "parse_loop ((''--'' @ k) # post) out = parse_loop post (set_prop out k JTrue)"
proof -
  have a: "js_startsWith (''--'' @ k) ''--''" by (rule startsWith_dashes)
  have b: "\<not> js_includes (''--'' @ k) ''=''" using assms(1) by (simp add: js_includes_char)
  have c: "drop 2 (''--'' @ k) = k" by simp
  show ?thesis
  proof (cases post)
    case Nil
    show ?thesis unfolding Nil parse_loop.simps c using a b by simp
  next
    case (Cons nxt rest)
    with assms(2) have "\<not> (nxt \<noteq> [] \<and> \<not> js_startsWith nxt ''--'')" by auto
    then show ?thesis unfolding Cons parse_loop.simps c using a b by auto
  qed
qed

lemma bare_last_true:
  assumes "CHR ''='' \<notin> set k" "k \<noteq> ''__proto__''"
    and "post = [] \<or> hd post = [] \<or> js_startsWith (hd post) ''--''"
    and "\<forall>a\<in>set post. a \<noteq> ''--'' @ k \<and> \<not> js_startsWith a (''--'' @ k @ ''='')"
  shows "parse_loop (pre @ (''--'' @ k) # post) out k = Some JTrue"
proof -
  obtain out' where "parse_loop (pre @ (''--'' @ k) # post) out = parse_loop ((''--'' @ k) # post) out'"
    using parse_loop_prefix [OF startsWith_dashes] by blast
  then have "parse_loop (pre @ (''--'' @ k) # post) out k = parse_loop post (set_prop out' k JTrue) k"
    using bare_step [OF assms(1,3)] by simp
  also have "\<dots> = set_prop out' k JTrue k" using assms(4) by (rule no_assign_keeps)
  also have "\<dots> = Some JTrue" using assms(2) by (simp add: set_prop_lookup)
  finally show ?thesis .
qed

text \<open>
  A flag given without a value somewhere in the vector, and never in the form with
  \<^verbatim>\<open>=\<close>, ends up truthy: this is how \<^verbatim>\<open>--dry-run\<close> sets the dry-run flag of the
  configuration.
\<close>

lemma dry_run_flag_parsed:
  assumes "''--dry-run'' \<in> set (drop 2 args)"
    and "\<forall>a\<in>set (drop 2 args). \<not> js_startsWith a ''--dry-run=''"
  shows "dryRun (config_of (parseArgs args))"
proof -
  have k: "CHR ''='' \<notin> set ''dry-run''" "''dry-run'' \<noteq> ''__proto__''" by simp_all
  have "truthy (parse_loop (drop 2 args) Map.empty ''dry-run'')"
    using assms by (intro bare_flag_truthy [OF k]) simp_all
  then show ?thesis by (simp add: config_of_def parseArgs_def)
qed

subsection \<open>Rules for evaluating the model on a given input\<close>

lemmas parse_eval = parseArgs_def js_startsWith_def js_includes_def js_endsWith_def sublist_code
  suffix_to_prefix set_prop_def config_of_def help_requested_def js_or_def

lemmas run_eval = run_def stages_def finish_def and_then_def getToken_def resolveToken_def
  saveTokenToKeychain_def shell_plain_def
  setupRcFile_def ensureRcFile_def readRcFile_def appendLoader_def detectRcFile_def js_basename_def
  setupNpmrc_def checkNpmToken_def validateNpm_def getKeychainToken_def vaultRead_def
  confirmPrompt_def readHidden_def fatal_def say_def ran_def js_trim_def js_space_def
  js_toLowerCase_def js_lower_char_def hasKeychainLoader_def

lemmas sample_eval = mac_def fresh_def no_failure_def registry_def LF_def

subsection \<open>Stages that only write to the console\<close>

lemma only_said_refl: "only_said w w"
  unfolding only_said_def by (rule exI [of _ "[]"]) simp

lemma only_said_say: "only_said w w1 \<Longrightarrow> only_said w (say m w1)"
  unfolding only_said_def say_def by auto

lemma only_said_and_then:
  assumes "only_said w (world_of s)" "\<And>a w1. only_said w w1 \<Longrightarrow> only_said w (world_of (f a w1))"
  shows "only_said w (world_of (and_then s f))"
  using assms by (cases s) (auto simp: and_then_def world_of_def)

lemma world_of_simps [simp]: "world_of (Next a w) = w" "world_of (Halt st w) = w" "world_of (fatal r w) = say (Fatal r) w"
  by (simp_all add: world_of_def fatal_def)

lemma getToken_dry:
  assumes "dryRun cfg" "only_said w w1"
  shows "only_said w (world_of (getToken cfg e w1))"
  using assms
  by (auto simp: getToken_def resolveToken_def and_then_def only_said_say split: jsval.splits)

lemma saveToken_dry:
  assumes "dryRun cfg" "only_said w w1"
  shows "only_said w (world_of (saveTokenToKeychain cfg e t w1))"
  using assms by (simp add: saveTokenToKeychain_def only_said_say)

lemma detectRcFile_said: "only_said w w1 \<Longrightarrow> only_said w (snd (detectRcFile e w1))"
  by (simp add: detectRcFile_def Let_def only_said_say)

lemma setupRcFile_dry:
  assumes "dryRun cfg" "only_said w w1"
  shows "only_said w (world_of (setupRcFile cfg e w1))"
proof -
  obtain r w0 where d: "detectRcFile e w1 = (r, w0)" by (cases "detectRcFile e w1")
  then have s0: "only_said w w0" using detectRcFile_said [OF assms(2), of e] by simp
  show ?thesis
  proof (cases r)
    case None
    with d s0 show ?thesis by (simp add: setupRcFile_def only_said_say)
  next
    case (Some p)
    have "only_said w (world_of (and_then (ensureRcFile cfg e p w0) (\<lambda>_ w1.
          and_then (readRcFile e p w1) (\<lambda>rcContent w2.
          appendLoader cfg e p rcContent w2))))"
    proof (intro only_said_and_then)
      show "only_said w (world_of (ensureRcFile cfg e p w0))"
        using assms(1) s0 by (simp add: ensureRcFile_def only_said_say)
    next
      fix a w2 assume "only_said w w2"
      then show "only_said w (world_of (readRcFile e p w2))"
        by (simp add: readRcFile_def only_said_say split: option.splits)
    next
      fix a w2 b w3 assume "only_said w w3"
      then show "only_said w (world_of (appendLoader cfg e p b w3))"
        using assms(1) by (simp add: appendLoader_def only_said_say)
    qed
    with d Some show ?thesis by (simp add: setupRcFile_def)
  qed
qed

lemma setupNpmrc_dry:
  assumes "dryRun cfg" "only_said w w1"
  shows "only_said w (world_of (setupNpmrc cfg e w1))"
  using assms by (simp add: setupNpmrc_def only_said_say)

lemma checkNpmToken_said: "only_said w w1 \<Longrightarrow> only_said w (checkNpmToken e w1)"
  by (simp add: checkNpmToken_def only_said_say split: option.splits)

lemma validateNpm_dry:
  assumes "dryRun cfg" "only_said w w1"
  shows "only_said w (world_of (validateNpm cfg e t w1))"
  using assms by (simp add: validateNpm_def only_said_say)

lemma stages_dry:
  assumes "dryRun cfg"
  shows "only_said w (world_of (stages cfg e w))"
  unfolding stages_def
  apply (intro only_said_and_then)
  using assms
       apply (simp_all add: getToken_dry saveToken_dry setupRcFile_dry setupNpmrc_dry validateNpm_dry checkNpmToken_said only_said_refl)
  done

lemma snd_finish: "snd (finish s) = world_of s"
  by (cases s) (simp_all add: finish_def)

subsection \<open>Facts about the registry config stage\<close>

lemma filteredLines_free: "x \<in> set (filteredLines old) \<Longrightarrow> LF \<notin> set x"
  unfolding filteredLines_def existingLines_def by (auto dest: js_split_parts_free)

lemma filteredLines_filter:
  "filteredLines old = filter (\<lambda>l. js_trim l \<noteq> [] \<and> keepLine l) (js_split LF old)"
  unfolding filteredLines_def existingLines_def by (simp add: conj_commute)

lemma authTokenLine_free: "LF \<notin> set authTokenLine"
  by (simp add: authTokenLine_def LF_def)

lemma registryLine_free: "LF \<notin> set (to_string (org cfg)) \<Longrightarrow> LF \<notin> set (registryLine cfg)"
  by (simp add: registryLine_def LF_def)

lemma updated_lines:
  assumes "LF \<notin> set (to_string (org cfg))"
  shows "js_split LF (updatedContent cfg old) =
           filteredLines old @ [registryLine cfg, authTokenLine, []]"
proof -
  have "\<forall>x\<in>set (filteredLines old @ npmrcLines cfg). LF \<notin> set x"
    using filteredLines_free authTokenLine_free registryLine_free [OF assms]
    by (auto simp: npmrcLines_def)
  moreover have "filteredLines old @ npmrcLines cfg \<noteq> []" by (simp add: npmrcLines_def)
  ultimately have "js_split LF (js_join LF (filteredLines old @ npmrcLines cfg) @ [LF]) =
      (filteredLines old @ npmrcLines cfg) @ [[]]"
    by (intro js_split_terminated)
  then show ?thesis by (simp add: updatedContent_def npmrcLines_def)
qed

lemma created_lines:
  assumes "LF \<notin> set (to_string (org cfg))"
  shows "js_split LF (npmrcContent cfg) = [registryLine cfg, authTokenLine, []]"
proof -
  have "\<forall>x\<in>set (npmrcLines cfg). LF \<notin> set x"
    using authTokenLine_free registryLine_free [OF assms] by (auto simp: npmrcLines_def)
  moreover have "npmrcLines cfg \<noteq> []" by (simp add: npmrcLines_def)
  ultimately have "js_split LF (js_join LF (npmrcLines cfg) @ [LF]) = npmrcLines cfg @ [[]]"
    by (intro js_split_terminated)
  then show ?thesis by (simp add: npmrcContent_def npmrcLines_def)
qed

lemma registryLine_kind: "isRegistryLine (registryLine cfg)" "\<not> isAuthTokenLine (registryLine cfg)"
  by (simp_all add: isRegistryLine_def isAuthTokenLine_def registryLine_def js_endsWith_def
      js_startsWith_def suffix_def)

lemma authTokenLine_kind: "isAuthTokenLine authTokenLine" "\<not> isRegistryLine authTokenLine"
  by (simp_all add: isRegistryLine_def isAuthTokenLine_def authTokenLine_def js_endsWith_def
      js_startsWith_def suffix_to_prefix)

lemma empty_line_kind: "\<not> isRegistryLine []" "\<not> isAuthTokenLine []"
  by (simp_all add: isRegistryLine_def isAuthTokenLine_def js_endsWith_def js_startsWith_def)

lemma filteredLines_kind:
  "filter isRegistryLine (filteredLines old) = []" "filter isAuthTokenLine (filteredLines old) = []"
  unfolding filteredLines_def by (auto simp: filter_empty_conv keepLine_def split: if_splits)

lemma acme_eq: "acme = \<lparr> org = Str ''acme'', dryRun = False, tokenArg = Str [] \<rparr>"
  by (simp add: acme_def mac_def parse_eval)

lemma npmrc_skip:
  assumes "\<not> dryRun cfg" "\<not> fails e AccessHome" "\<not> fails e (ReadFile Npmrc)"
    and "files w Npmrc = Some old" "alreadyConfigured cfg old"
  shows "setupNpmrc cfg e w = Next () (say NpmrcSkipped w)"
  using assms by (simp add: setupNpmrc_def)

lemmas npmrc_eval = setupNpmrc_def alreadyConfigured_def existingLines_def filteredLines_def
  keepLine_def isRegistryLine_def isAuthTokenLine_def registryLine_def authTokenLine_def
  npmrcLines_def npmrcContent_def updatedContent_def text_of_def with_npmrc_def

lemmas str_eval = js_endsWith_def js_startsWith_def suffix_to_prefix js_trim_def js_space_def

lemma npmrcContent_versions:
  "npmrcContent cfg = npmrcContent_v1 cfg" "npmrcContent_v2 cfg = npmrcContent_v1 cfg"
  by (simp_all add: npmrcContent_def npmrcContent_v1_def npmrcContent_v2_def npmrcLines_def
      registryLine_def authTokenLine_def)

lemma js_join_longer:
  "ys \<noteq> [] \<Longrightarrow> xs \<noteq> [] \<Longrightarrow> length (js_join c ys) < length (js_join c (xs @ ys))"
proof (induction xs)
  case Nil
  then show ?case by simp
next
  case (Cons x xs)
  show ?case
  proof (cases xs)
    case Nil
    with Cons.prems show ?thesis by (cases ys) auto
  next
    case (Cons x' xs')
    with Cons.IH Cons.prems have "length (js_join c ys) < length (js_join c (xs @ ys))" by simp
    with Cons show ?thesis by simp
  qed
qed

lemma updatedContent_same:
  "updatedContent cfg old = npmrcContent cfg \<longleftrightarrow> filteredLines old = []"
proof
  assume eq: "updatedContent cfg old = npmrcContent cfg"
  show "filteredLines old = []"
  proof (rule ccontr)
    assume "filteredLines old \<noteq> []"
    then have "length (js_join LF (npmrcLines cfg)) <
        length (js_join LF (filteredLines old @ npmrcLines cfg))"
      by (intro js_join_longer) (simp_all add: npmrcLines_def)
    with eq show False by (simp add: updatedContent_def npmrcContent_def)
  qed
next
  assume "filteredLines old = []"
  then show "updatedContent cfg old = npmrcContent cfg"
    by (simp add: updatedContent_def npmrcContent_def)
qed

subsection \<open>Facts about the loader and the shell profile stage\<close>

lemma loader_length: "length loader = 158"
  by (simp add: loader_def KEYCHAIN_LOADER_SCRIPT_def KEYCHAIN_SERVICE_def)

lemma loader_has_markers: "hasKeychainLoader loader"
  by (simp add: hasKeychainLoader_def loader_def KEYCHAIN_LOADER_SCRIPT_def KEYCHAIN_SERVICE_def
      LF_def js_includes_def sublist_code)

lemma butlast_loader_has_markers: "hasKeychainLoader (take 157 loader)"
  by (simp add: hasKeychainLoader_def loader_def KEYCHAIN_LOADER_SCRIPT_def KEYCHAIN_SERVICE_def
      LF_def js_includes_def sublist_code)

lemma loader_borders:
  "list_all (\<lambda>k. prefix (drop k loader) loader \<longrightarrow> k = 157) [1..<158]"
  by code_simp

lemma occurrences_short: "length s < length p \<Longrightarrow> occurrences p s = 0"
proof (induction s)
  case Nil
  then show ?case by auto
next
  case (Cons x xs)
  then have "\<not> prefix p (x # xs)" by (auto dest: prefix_length_le)
  with Cons show ?case by simp
qed

lemma occurrences_self: "p \<noteq> [] \<Longrightarrow> occurrences p p = 1"
  by (cases p) (simp_all add: occurrences_short)

lemma occurrences_append:
  "\<forall>i<length c. \<not> prefix p (drop i (c @ p)) \<Longrightarrow> occurrences p (c @ p) = occurrences p p"
proof (induction c)
  case Nil
  show ?case by simp
next
  case (Cons x c)
  from Cons.prems have "\<not> prefix p ((x # c) @ p)" by (metis drop0 length_greater_0_conv list.discI)
  moreover have "\<forall>i<length c. \<not> prefix p (drop i (c @ p))"
  proof (intro allI impI)
    fix i assume "i < length c"
    then have "Suc i < length (x # c)" by simp
    with Cons.prems have "\<not> prefix p (drop (Suc i) ((x # c) @ p))" by blast
    then show "\<not> prefix p (drop i (c @ p))" by simp
  qed
  ultimately show ?case using Cons.IH by simp
qed

lemma hasKeychainLoader_mono:
  assumes "hasKeychainLoader d" "sublist d c"
  shows "hasKeychainLoader c"
  using assms unfolding hasKeychainLoader_def js_includes_def
  by (meson sublist_order.order_trans)

lemma prefix_of_append_short:
  assumes "prefix p (d @ q)" "length p \<le> length d"
  shows "prefix p d"
proof -
  from assms(1) consider "prefix p d" | us where "p = d @ us" "prefix us q"
    by (auto simp: prefix_append)
  then show ?thesis
  proof cases
    case 1
    then show ?thesis .
  next
    case 2
    with assms(2) have "us = []" by simp
    with 2 show ?thesis by simp
  qed
qed

lemma prefix_of_append_long:
  assumes "prefix p (d @ q)" "length d \<le> length p"
  shows "prefix d p"
proof -
  from assms(1) consider "prefix p d" | us where "p = d @ us" "prefix us q"
    by (auto simp: prefix_append)
  then show ?thesis
  proof cases
    case 1
    then obtain zs where zs: "d = p @ zs" by (auto simp: prefix_def)
    with assms(2) have "zs = []" by simp
    with zs show ?thesis by simp
  next
    case 2
    then show ?thesis by simp
  qed
qed

lemma loader_straddle:
  assumes "i < length c" "prefix loader (drop i (c @ loader))"
  shows "hasKeychainLoader c"
proof -
  define d where "d = drop i c"
  have d: "d \<noteq> []" "suffix d c" "drop i (c @ loader) = d @ loader"
    using assms(1) by (simp_all add: d_def suffix_drop)
  have sub: "sublist d c" using d(2) by (rule suffix_imp_sublist)
  from assms(2) d(3) have pl: "prefix loader (d @ loader)" by simp
  show ?thesis
  proof (cases "length loader \<le> length d")
    case True
    with pl have "prefix loader d" by (rule prefix_of_append_short)
    then have "sublist loader d" by (rule prefix_imp_sublist)
    then have "hasKeychainLoader d" using loader_has_markers by (rule hasKeychainLoader_mono [rotated])
    then show ?thesis using sub by (rule hasKeychainLoader_mono)
  next
    case False
    define k where "k = length d"
    have k: "0 < k" "k < 158" using d(1) False by (simp_all add: k_def loader_length)
    have "prefix d loader" using False by (intro prefix_of_append_long [OF pl]) simp
    then obtain r where r: "loader = d @ r" by (auto simp: prefix_def)
    have rk: "drop k loader = r" "take k loader = d" unfolding k_def r by simp_all
    from pl have "prefix (d @ r) (d @ loader)" unfolding r [symmetric] .
    then have "prefix r loader" by simp
    then have pk: "prefix (drop k loader) loader" using rk by simp
    have b: "\<forall>j\<in>{1..<158}. prefix (drop j loader) loader \<longrightarrow> j = 157"
      using loader_borders unfolding list_all_iff set_upt .
    have "k \<in> {1..<158}" using k by simp
    with b pk have "k = 157" by blast
    then have "hasKeychainLoader d" using rk butlast_loader_has_markers by simp
    then show ?thesis using sub by (rule hasKeychainLoader_mono)
  qed
qed

lemma loader_once:
  assumes "\<not> hasKeychainLoader c"
  shows "occurrences loader (c @ loader) = 1"
proof -
  have "\<forall>i<length c. \<not> prefix loader (drop i (c @ loader))"
    using loader_straddle assms by blast
  then have "occurrences loader (c @ loader) = occurrences loader loader"
    by (rule occurrences_append)
  moreover have "loader \<noteq> []" using loader_length by auto
  ultimately show ?thesis by (simp add: occurrences_self)
qed

lemma detectRcFile_some:
  "fst (detectRcFile e w) = Some p \<Longrightarrow> detectRcFile e w = (Some p, w)"
  by (auto simp: detectRcFile_def Let_def split: if_splits)

lemma detectRcFile_stable:
  assumes "fst (detectRcFile e w) = Some p" "files w' = (files w)(p \<mapsto> c)"
  shows "fst (detectRcFile e w') = Some p"
  using assms by (auto simp: detectRcFile_def Let_def split: if_splits)

lemma hasKeychainLoader_appended: "hasKeychainLoader (c @ loader)"
proof -
  have "sublist loader (c @ loader)" by (intro suffix_imp_sublist) (simp add: suffix_def)
  with loader_has_markers show ?thesis by (rule hasKeychainLoader_mono)
qed

lemma hasKeychainLoader_empty: "\<not> hasKeychainLoader []"
  by (simp add: hasKeychainLoader_def js_includes_def KEYCHAIN_SERVICE_def)

lemma setupRcFile_once:
  assumes "\<not> dryRun cfg" "\<And>op. \<not> fails e op" "fst (detectRcFile e w) = Some p"
    and "c0 = (case files w p of None \<Rightarrow> [] | Some c \<Rightarrow> c)"
  shows "\<exists>w'. setupRcFile cfg e w = Next () w' \<and>
           files w' = (files w)(p \<mapsto> (if hasKeychainLoader c0 then c0 else c0 @ loader)) \<and>
           vault w' = vault w \<and> cmds w' = cmds w"
proof (cases "files w p")
  case None
  then have c0: "c0 = []" using assms(4) by simp
  show ?thesis
    using assms(1,2) None detectRcFile_some [OF assms(3)]
    by (cases "home_exists w")
       (simp_all add: setupRcFile_def ensureRcFile_def readRcFile_def appendLoader_def
          and_then_def say_def c0 hasKeychainLoader_empty)
next
  case (Some c)
  then have c0: "c0 = c" using assms(4) by simp
  show ?thesis
    using assms(1,2) Some detectRcFile_some [OF assms(3)]
    by (cases "hasKeychainLoader c")
       (auto simp: setupRcFile_def ensureRcFile_def readRcFile_def appendLoader_def
          and_then_def say_def c0)
qed

lemma setupRcFile_repeat:
  assumes "\<not> dryRun cfg" "\<And>op. \<not> fails e op"
  shows "fst (detectRcFile e w) = Some p \<Longrightarrow>
         \<exists>w'. setupRcFile_times (Suc n) cfg e w = Next () w' \<and>
           files w' = (files w)(p \<mapsto>
             (if hasKeychainLoader (case files w p of None \<Rightarrow> [] | Some c \<Rightarrow> c)
              then (case files w p of None \<Rightarrow> [] | Some c \<Rightarrow> c)
              else (case files w p of None \<Rightarrow> [] | Some c \<Rightarrow> c) @ loader)) \<and>
           vault w' = vault w \<and> cmds w' = cmds w"
proof (induction n arbitrary: w)
  case 0
  from setupRcFile_once [OF assms 0 refl] show ?case by (auto simp: and_then_def)
next
  case (Suc n)
  define c0 where "c0 = (case files w p of None \<Rightarrow> [] | Some c \<Rightarrow> c)"
  define f0 where "f0 = (if hasKeychainLoader c0 then c0 else c0 @ loader)"
  from setupRcFile_once [OF assms Suc.prems c0_def]
  obtain w1 where w1: "setupRcFile cfg e w = Next () w1" "files w1 = (files w)(p \<mapsto> f0)"
    "vault w1 = vault w" "cmds w1 = cmds w" unfolding f0_def by blast
  have d1: "fst (detectRcFile e w1) = Some p"
    using Suc.prems w1(2) by (rule detectRcFile_stable)
  have has: "hasKeychainLoader f0" by (simp add: f0_def hasKeychainLoader_appended)
  have c1: "(case files w1 p of None \<Rightarrow> [] | Some c \<Rightarrow> c) = f0" by (simp add: w1(2))
  have "\<exists>w'. setupRcFile_times (Suc n) cfg e w1 = Next () w' \<and>
           files w' = (files w1)(p \<mapsto> f0) \<and> vault w' = vault w1 \<and> cmds w' = cmds w1"
    using Suc.IH [OF d1] unfolding c1 by (simp only: has if_True)
  then obtain w' where w': "setupRcFile_times (Suc n) cfg e w1 = Next () w'"
    "files w' = (files w1)(p \<mapsto> f0)" "vault w' = vault w1" "cmds w' = cmds w1"
    by blast
  have "setupRcFile_times (Suc (Suc n)) cfg e w = Next () w'"
    unfolding setupRcFile_times.simps(2) [of "Suc n"] w1(1) using w'(1) by (simp add: and_then_def)
  moreover have "files w' = (files w)(p \<mapsto> f0)" using w'(2) w1(2) by simp
  moreover have "vault w' = vault w" "cmds w' = cmds w" using w'(3,4) w1(3,4) by simp_all
  ultimately have "setupRcFile_times (Suc (Suc n)) cfg e w = Next () w' \<and>
      files w' = (files w)(p \<mapsto> f0) \<and> vault w' = vault w \<and> cmds w' = cmds w"
    by simp
  then show ?case unfolding c0_def [symmetric] f0_def [symmetric] by (rule exI)
qed

lemmas rc_eval = setupRcFile_def ensureRcFile_def readRcFile_def appendLoader_def detectRcFile_def
  js_basename_def and_then_def say_def hasKeychainLoader_def KEYCHAIN_SERVICE_def js_includes_def
  sublist_code with_zshrc_def text_of_def

subsection \<open>Facts about the verifier\<close>

lemma validateNpm_missing:
  assumes "\<not> dryRun cfg" "fst (getKeychainToken e w) = []"
  shows "validateNpm cfg e token w = Halt (Exit 1) (say NoCredential (ran SecurityFind w))"
  using assms by (auto simp: validateNpm_def getKeychainToken_def split: option.splits)

lemma validateNpm_present:
  assumes "\<not> dryRun cfg" "fst (getKeychainToken e w) = secret" "secret \<noteq> []"
  shows "cmds (world_of (validateNpm cfg e token w)) = cmds w @ [SecurityFind, NpmWhoami secret]"
  using assms
  by (auto simp: validateNpm_def getKeychainToken_def ran_def say_def split: option.splits sum.splits)

section \<open>C6: the two argument forms\<close>

text \<open>
  Claim C6, as amended. For every key and every value that is not empty and does not
  start with two dashes, the argument vectors \<^verbatim>\<open>['--key=value']\<close> and
  \<^verbatim>\<open>['--key', 'value']\<close> give the same parsed value for that key. (An empty value, or
  one that starts with two dashes, is not consumed by the two-token form: the key is
  then set to \<^verbatim>\<open>true\<close>.)
\<close>

theorem parse_forms_agree:
  assumes "v \<noteq> []" "\<not> js_startsWith v ''--''"
  shows "parseArgs [n, s, ''--'' @ k @ CHR ''='' # v] k = parseArgs [n, s, ''--'' @ k, v] k"
proof -
  let ?both = "if CHR ''='' \<in> set k \<or> k = ''__proto__'' then None else Some (Str v)"
  have "parseArgs [n, s, ''--'' @ k @ CHR ''='' # v] k = ?both"
    by (rule parse_eq_form)
  also have "?both = parseArgs [n, s, ''--'' @ k, v] k"
    using assms by (rule parse_space_form [symmetric])
  finally show ?thesis .
qed

text \<open>
  Witness for C6: the key \<^verbatim>\<open>org\<close> with the value \<^verbatim>\<open>acme\<close>, where both forms give the
  string \<^verbatim>\<open>acme\<close>.
\<close>

theorem parse_forms_agree_witness:
  "''acme'' \<noteq> [] \<and> \<not> js_startsWith ''acme'' ''--'' \<and>
   parseArgs [''node'', ''setup-npm-github.js'', ''--org=acme''] ''org'' = Some (Str ''acme'') \<and>
   parseArgs [''node'', ''setup-npm-github.js'', ''--org'', ''acme''] ''org'' = Some (Str ''acme'')"
proof -
  have a: "''acme'' \<noteq> []" by simp
  have b: "\<not> js_startsWith ''acme'' ''--''" by (simp add: js_startsWith_def)
  have c: "parseArgs [''node'', ''setup-npm-github.js'', ''--org'', ''acme''] ''org'' = Some (Str ''acme'')"
    by (simp add: parseArgs_def js_startsWith_def js_includes_def sublist_code set_prop_def)
  from parse_forms_agree [OF a b, of "''node''" "''setup-npm-github.js''" "''org''"] a b c
  show ?thesis by simp
qed

text \<open>
  Counterexample to C6 as stated: for the key \<^verbatim>\<open>org\<close> and the value \<^verbatim>\<open>--x\<close>, the form
  \<^verbatim>\<open>--org=--x\<close> gives the string \<^verbatim>\<open>--x\<close> and the form \<^verbatim>\<open>--org --x\<close> gives \<^verbatim>\<open>true\<close>.
\<close>

theorem parse_forms_differ:
  "parseArgs [''node'', ''setup-npm-github.js'', ''--org=--x''] ''org'' \<noteq>
     parseArgs [''node'', ''setup-npm-github.js'', ''--org'', ''--x''] ''org'' \<and>
   parseArgs [''node'', ''setup-npm-github.js'', ''--org=--x''] ''org'' = Some (Str ''--x'') \<and>
   parseArgs [''node'', ''setup-npm-github.js'', ''--org'', ''--x''] ''org'' = Some JTrue"
  by (simp add: parseArgs_def js_startsWith_def js_includes_def sublist_code set_prop_def)

section \<open>C7: the help flag\<close>

text \<open>
  What the code does for the long help flag. On macOS, for every argument vector (after
  the program and script names) that contains \<^verbatim>\<open>--help\<close>, or the key \<^verbatim>\<open>--h\<close> that the help
  check also reads, and no argument in the form with \<^verbatim>\<open>=\<close> that could reset the entry,
  the program prints the usage line and ends with exit code 0, and nothing else happens:
  no token is acquired, the Keychain and the files are untouched, no command is run.
\<close>

theorem help_short_circuit:
  assumes "platform e = ''darwin''"
    and "k = ''help'' \<or> k = ''h''"
    and "''--'' @ k \<in> set (drop 2 (argv e))"
    and "\<forall>a\<in>set (drop 2 (argv e)). \<not> js_startsWith a (''--'' @ k @ ''='')"
  shows "run e w = (Exit 0, say Usage w)"
proof -
  have k: "CHR ''='' \<notin> set k" "k \<noteq> ''__proto__''" using assms(2) by auto
  have "truthy (parseArgs (argv e) k)"
    unfolding parseArgs_def using assms(3,4) by (intro bare_flag_truthy [OF k]) simp_all
  then have "help_requested (parseArgs (argv e))"
    using assms(2) by (auto simp: help_requested_def)
  then show ?thesis using assms(1) by (simp add: run_def)
qed

text \<open>
  An instance: \<^verbatim>\<open>--org --help\<close>, where \<^verbatim>\<open>--help\<close> follows a flag that takes a value.
\<close>

theorem help_short_circuit_witness:
  "platform (mac [''--org'', ''--help'']) = ''darwin'' \<and>
   ''--help'' \<in> set (drop 2 (argv (mac [''--org'', ''--help'']))) \<and>
   \<not> js_startsWith ''--org'' ''--help='' \<and> \<not> js_startsWith ''--help'' ''--help='' \<and>
   run (mac [''--org'', ''--help'']) fresh = (Exit 0, say Usage fresh)"
proof -
  let ?e = "mac [''--org'', ''--help'']"
  have a: "platform ?e = ''darwin''" by (simp add: mac_def)
  have b: "''help'' = ''help'' \<or> ''help'' = ''h''" by simp
  have c: "''--'' @ ''help'' \<in> set (drop 2 (argv ?e))" by (simp add: mac_def)
  have d: "\<forall>a\<in>set (drop 2 (argv ?e)). \<not> js_startsWith a (''--'' @ ''help'' @ ''='')"
    by (simp add: mac_def js_startsWith_def)
  from help_short_circuit [OF a b c d, of fresh] a c show ?thesis
    by (simp add: js_startsWith_def)
qed

text \<open>
  Claim C7: an invocation whose argument vector contains \<^verbatim>\<open>--help\<close> or \<^verbatim>\<open>-h\<close> prints the
  usage line and ends with exit code 0 before token acquisition, Keychain write, file
  update or verification. The code does not do this for \<^verbatim>\<open>-h\<close>. Its help check reads
  \<^verbatim>\<open>parsed.h\<close>, but its parser skips every token that does not start with two dashes, so
  \<^verbatim>\<open>-h\<close> never sets that entry. At the argument vector \<^verbatim>\<open>['-h']\<close> on the sample machine
  the run is an ordinary one: the usage line is not printed, the token is read from the
  terminal and stored in the Keychain, and the Keychain read and the identity check
  are run.
\<close>

theorem short_h_not_help:
  "run (mac [''-h'']) fresh \<noteq> (Exit 0, say Usage fresh) \<and>
   Usage \<notin> set (console (snd (run (mac [''-h'']) fresh))) \<and>
   HiddenPrompt \<in> set (console (snd (run (mac [''-h'']) fresh))) \<and>
   vault (snd (run (mac [''-h'']) fresh)) = Some ''ghp_abc'' \<and>
   cmds (snd (run (mac [''-h'']) fresh)) =
     [SecurityAdd ''ghp_abc'', SecurityFind, NpmWhoami ''ghp_abc'']"
  by (simp add: sample_eval parse_eval run_eval)

section \<open>C10: a token flag without a value\<close>

text \<open>
  Claim C10, as amended. On macOS, when help is not requested and the last \<^verbatim>\<open>--token\<close>
  argument has no value (it is the final argument, or the next argument is empty or
  starts with two dashes) and no \<^verbatim>\<open>--token=...\<close> argument follows it, the parser leaves
  the boolean \<^verbatim>\<open>true\<close> for the token, token acquisition calls \<^verbatim>\<open>trim\<close> on it, and the
  process ends with an uncaught type error before any output or effect: neither the
  hidden prompt nor the dry-run placeholder is used.
\<close>

theorem bare_token_type_error:
  assumes "platform e = ''darwin''"
    and "drop 2 (argv e) = pre @ ''--token'' # post"
    and "post = [] \<or> hd post = [] \<or> js_startsWith (hd post) ''--''"
    and "\<forall>a\<in>set post. a \<noteq> ''--token'' \<and> \<not> js_startsWith a ''--token=''"
    and "\<not> help_requested (parseArgs (argv e))"
  shows "run e w = (UncaughtTypeError, w)"
proof -
  have k: "CHR ''='' \<notin> set ''token''" "''token'' \<noteq> ''__proto__''" by simp_all
  have p: "\<forall>a\<in>set post. a \<noteq> ''--'' @ ''token'' \<and> \<not> js_startsWith a (''--'' @ ''token'' @ ''='')"
    using assms(4) by simp
  have "parse_loop (pre @ (''--'' @ ''token'') # post) Map.empty ''token'' = Some JTrue"
    using k assms(3) p by (rule bare_last_true)
  then have "parseArgs (argv e) ''token'' = Some JTrue"
    unfolding parseArgs_def assms(2) by simp
  then have "tokenArg (config_of (parseArgs (argv e))) = JTrue"
    by (simp add: config_of_def js_or_def)
  then have "stages (config_of (parseArgs (argv e))) e w = Halt UncaughtTypeError w"
    by (simp add: stages_def getToken_def resolveToken_def and_then_def)
  then show ?thesis using assms(1,5) by (simp add: run_def finish_def)
qed

text \<open>
  Witness for C10: \<^verbatim>\<open>--org acme --token --dry-run\<close>. The run is a dry run and still
  ends with the type error instead of using the placeholder.
\<close>

theorem bare_token_type_error_witness:
  "platform (mac [''--org'', ''acme'', ''--token'', ''--dry-run'']) = ''darwin'' \<and>
   drop 2 (argv (mac [''--org'', ''acme'', ''--token'', ''--dry-run''])) =
      [''--org'', ''acme''] @ ''--token'' # [''--dry-run''] \<and>
   js_startsWith (hd [''--dry-run'']) ''--'' \<and>
   ''--dry-run'' \<noteq> ''--token'' \<and> \<not> js_startsWith ''--dry-run'' ''--token='' \<and>
   \<not> help_requested (parseArgs (argv (mac [''--org'', ''acme'', ''--token'', ''--dry-run'']))) \<and>
   run (mac [''--org'', ''acme'', ''--token'', ''--dry-run'']) fresh = (UncaughtTypeError, fresh)"
proof -
  let ?e = "mac [''--org'', ''acme'', ''--token'', ''--dry-run'']"
  have a: "platform ?e = ''darwin''" by (simp add: mac_def)
  have b: "drop 2 (argv ?e) = [''--org'', ''acme''] @ ''--token'' # [''--dry-run'']"
    by (simp add: mac_def)
  have c: "js_startsWith (hd [''--dry-run'']) ''--''" by (simp add: js_startsWith_def)
  have d: "\<forall>a\<in>set [''--dry-run'']. a \<noteq> ''--token'' \<and> \<not> js_startsWith a ''--token=''"
    by (simp add: js_startsWith_def)
  have h: "\<not> help_requested (parseArgs (argv ?e))"
    by (simp add: mac_def parse_eval)
  from bare_token_type_error [OF a b _ d h, of fresh] a b c h show ?thesis
    by (simp add: js_startsWith_def)
qed

text \<open>
  Counterexample to C10 as stated: \<^verbatim>\<open>--token --help\<close>. The token flag is bare and is
  followed by another flag, the parser stores \<^verbatim>\<open>true\<close> for it, and yet the process prints
  the usage line and ends with exit code 0, since the help check comes before token
  acquisition.
\<close>

theorem bare_token_with_help:
  "run (mac [''--token'', ''--help'']) fresh = (Exit 0, say Usage fresh) \<and>
   run (mac [''--token'', ''--help'']) fresh \<noteq> (UncaughtTypeError, fresh)"
  by (simp add: sample_eval parse_eval run_eval)

section \<open>C5: an empty token\<close>

text \<open>What the hidden read returns when the operator ends the entry with Enter.\<close>

lemma onData_typed:
  assumes "enter = [CHR 0x0D] \<or> enter = [LF]"
    and "\<forall>c\<in>set chunks. c \<noteq> [CHR 0x0D] \<and> c \<noteq> [LF] \<and> c \<noteq> [CHR 0x03]"
  shows "onData (chunks @ enter # rest) buf w = Next (buf @ concat chunks) (say Newline w)"
  using assms(2)
proof (induction chunks arbitrary: buf)
  case Nil
  with assms(1) show ?case by auto
next
  case (Cons c chunks)
  then have "onData (chunks @ enter # rest) (buf @ c) w =
      Next ((buf @ c) @ concat chunks) (say Newline w)" by simp
  with Cons.prems show ?case by simp
qed

text \<open>
  A token flag in the form \<^verbatim>\<open>--token=\<close>, with nothing after the sign, counts as no token:
  the placeholder (dry run) or the hidden read is used.
\<close>

lemma empty_token_value_is_no_token:
  assumes "parseArgs (argv e) ''token'' = Some (Str [])"
  shows "resolveToken (config_of (parseArgs (argv e))) e w =
     (if truthy (parseArgs (argv e) ''dry-run'')
      then Next ''DRY_RUN_TOKEN'' (say DryRunPlaceholderToken w)
      else and_then (readHidden e w) (\<lambda>typed w'. Next (js_trim typed) w'))"
  using assms by (simp add: resolveToken_def config_of_def js_or_def)

text \<open>
  Claim C5, as amended. For every invocation in which help is not requested and the
  acquired token is empty after trimming, the process ends with exit code 1 and has
  changed nothing but the console: no Keychain write, no file write, no command. The
  acquired token is empty after trimming in two cases: the parser holds a string for
  \<^verbatim>\<open>token\<close> that is not empty and is all white space; or it holds no token (none, or the
  empty string), the run is not a dry run, and the operator's hidden entry, ended by
  Enter, is empty or all white space. On macOS the last console line is the message
  that the token must not be empty.
\<close>

theorem empty_token_fatal:
  assumes "\<not> help_requested (parseArgs (argv e))"
    and "(\<exists>s. parseArgs (argv e) ''token'' = Some (Str s) \<and> s \<noteq> [] \<and> js_trim s = []) \<or>
         (\<not> truthy (parseArgs (argv e) ''token'') \<and>
          \<not> truthy (parseArgs (argv e) ''dry-run'') \<and>
          (\<exists>chunks enter rest.
             keys e = chunks @ enter # rest \<and> (enter = [CHR 0x0D] \<or> enter = [LF]) \<and>
             (\<forall>c\<in>set chunks. c \<noteq> [CHR 0x0D] \<and> c \<noteq> [LF] \<and> c \<noteq> [CHR 0x03]) \<and>
             js_trim (concat chunks) = []))"
  shows "fst (run e w) = Exit 1 \<and>
         (\<exists>ms. snd (run e w) = w\<lparr>console := console w @ ms\<rparr> \<and>
               (platform e = ''darwin'' \<longrightarrow> last ms = Fatal EmptyToken))"
proof (cases "platform e = ''darwin''")
  case False
  have "say (Fatal UnsupportedOS) w = w\<lparr>console := console w @ [Fatal UnsupportedOS]\<rparr>"
    by (simp add: say_def)
  with False show ?thesis by (auto simp: run_def)
next
  case True
  let ?cfg = "config_of (parseArgs (argv e))"
  have "\<exists>pre. resolveToken ?cfg e w = Next [] (w\<lparr>console := console w @ pre\<rparr>)"
    using assms(2)
  proof
    assume "\<exists>s. parseArgs (argv e) ''token'' = Some (Str s) \<and> s \<noteq> [] \<and> js_trim s = []"
    then obtain s where s: "parseArgs (argv e) ''token'' = Some (Str s)" "s \<noteq> []"
      "js_trim s = []" by blast
    then have "resolveToken ?cfg e w = Next [] w"
      by (simp add: resolveToken_def config_of_def js_or_def)
    then have "resolveToken ?cfg e w = Next [] (w\<lparr>console := console w @ []\<rparr>)" by simp
    then show ?thesis by (rule exI)
  next
    assume b: "\<not> truthy (parseArgs (argv e) ''token'') \<and>
          \<not> truthy (parseArgs (argv e) ''dry-run'') \<and>
          (\<exists>chunks enter rest.
             keys e = chunks @ enter # rest \<and> (enter = [CHR 0x0D] \<or> enter = [LF]) \<and>
             (\<forall>c\<in>set chunks. c \<noteq> [CHR 0x0D] \<and> c \<noteq> [LF] \<and> c \<noteq> [CHR 0x03]) \<and>
             js_trim (concat chunks) = [])"
    then have "\<exists>chunks enter rest.
             keys e = chunks @ enter # rest \<and> (enter = [CHR 0x0D] \<or> enter = [LF]) \<and>
             (\<forall>c\<in>set chunks. c \<noteq> [CHR 0x0D] \<and> c \<noteq> [LF] \<and> c \<noteq> [CHR 0x03]) \<and>
             js_trim (concat chunks) = []" by (rule conjunct2 [THEN conjunct2])
    then obtain chunks enter rest where k0: "keys e = chunks @ enter # rest \<and>
      (enter = [CHR 0x0D] \<or> enter = [LF]) \<and>
      (\<forall>c\<in>set chunks. c \<noteq> [CHR 0x0D] \<and> c \<noteq> [LF] \<and> c \<noteq> [CHR 0x03]) \<and>
      js_trim (concat chunks) = []" by (elim exE)
    then have k: "keys e = chunks @ enter # rest"
      "enter = [CHR 0x0D] \<or> enter = [LF]"
      "\<forall>c\<in>set chunks. c \<noteq> [CHR 0x0D] \<and> c \<noteq> [LF] \<and> c \<noteq> [CHR 0x03]"
      "js_trim (concat chunks) = []" by (rule conjunct1, rule conjunct2 [THEN conjunct1],
        rule conjunct2 [THEN conjunct2, THEN conjunct1],
        rule conjunct2 [THEN conjunct2, THEN conjunct2])
    from b have b1: "\<not> truthy (parseArgs (argv e) ''token'')"
      and b2: "\<not> truthy (parseArgs (argv e) ''dry-run'')" by (rule conjunct1, rule conjunct2 [THEN conjunct1])
    have "\<not> truthy (Some (tokenArg ?cfg))"
      using b1 by (cases "parseArgs (argv e) ''token''") (simp_all add: config_of_def js_or_def)
    moreover have "\<not> dryRun ?cfg" using b2 by (simp add: config_of_def)
    ultimately have nt: "\<not> truthy (Some (tokenArg ?cfg))" "\<not> dryRun ?cfg" by simp_all
    have "readHidden e w = Next (concat chunks) (say Newline (say HiddenPrompt w))"
      unfolding readHidden_def k(1) using onData_typed [OF k(2,3), of rest "[]"] by simp
    then have "resolveToken ?cfg e w = Next [] (say Newline (say HiddenPrompt w))"
      using nt k(4) by (simp add: resolveToken_def and_then_def)
    moreover have "say Newline (say HiddenPrompt w) =
        w\<lparr>console := console w @ [HiddenPrompt, Newline]\<rparr>" by (simp add: say_def)
    ultimately have "resolveToken ?cfg e w =
        Next [] (w\<lparr>console := console w @ [HiddenPrompt, Newline]\<rparr>)" by simp
    then show ?thesis by (rule exI)
  qed
  then obtain pre where r: "resolveToken ?cfg e w = Next [] (w\<lparr>console := console w @ pre\<rparr>)"
    by blast
  have "stages ?cfg e w =
      Halt (Exit 1) (say (Fatal EmptyToken) (w\<lparr>console := console w @ pre\<rparr>))"
    using r by (simp add: stages_def getToken_def and_then_def fatal_def)
  then have "run e w = (Exit 1, say (Fatal EmptyToken) (w\<lparr>console := console w @ pre\<rparr>))"
    using True assms(1) by (simp add: run_def finish_def)
  moreover have "say (Fatal EmptyToken) (w\<lparr>console := console w @ pre\<rparr>) =
      w\<lparr>console := console w @ (pre @ [Fatal EmptyToken])\<rparr>" by (simp add: say_def)
  ultimately have res: "run e w =
      (Exit 1, w\<lparr>console := console w @ (pre @ [Fatal EmptyToken])\<rparr>)" by simp
  have "snd (run e w) = w\<lparr>console := console w @ (pre @ [Fatal EmptyToken])\<rparr> \<and>
      (platform e = ''darwin'' \<longrightarrow> last (pre @ [Fatal EmptyToken]) = Fatal EmptyToken)"
    by (simp add: res)
  then have "\<exists>ms. snd (run e w) = w\<lparr>console := console w @ ms\<rparr> \<and>
      (platform e = ''darwin'' \<longrightarrow> last ms = Fatal EmptyToken)" by (rule exI)
  moreover have "fst (run e w) = Exit 1" by (simp add: res)
  ultimately show ?thesis by simp
qed

text \<open>
  Witness for C5, one input for each case: \<^verbatim>\<open>--token='  '\<close>, a value of two blanks; and
  no token flag, with an operator who types one blank and presses Enter.
\<close>

theorem empty_token_fatal_witness:
  "\<not> help_requested (parseArgs (argv (mac [''--token=  '']))) \<and>
   parseArgs (argv (mac [''--token=  ''])) ''token'' = Some (Str ''  '') \<and>
   js_trim ''  '' = [] \<and>
   fst (run (mac [''--token=  '']) fresh) = Exit 1 \<and>
   (\<exists>ms. snd (run (mac [''--token=  '']) fresh) = fresh\<lparr>console := console fresh @ ms\<rparr> \<and>
      last ms = Fatal EmptyToken) \<and>
   \<not> help_requested (parseArgs (argv mac_blank_entry)) \<and>
   \<not> truthy (parseArgs (argv mac_blank_entry) ''token'') \<and>
   \<not> truthy (parseArgs (argv mac_blank_entry) ''dry-run'') \<and>
   keys mac_blank_entry = ['' ''] @ [CHR 0x0D] # [] \<and>
   js_trim (concat ['' '']) = [] \<and>
   fst (run mac_blank_entry fresh) = Exit 1 \<and>
   (\<exists>ms. snd (run mac_blank_entry fresh) = fresh\<lparr>console := console fresh @ ms\<rparr> \<and>
      last ms = Fatal EmptyToken)"
proof -
  let ?e = "mac [''--token=  '']"
  have a: "\<not> help_requested (parseArgs (argv ?e))"
    by (simp add: mac_def parse_eval)
  have b: "parseArgs (argv ?e) ''token'' = Some (Str ''  '')"
    by (simp add: mac_def parse_eval)
  have c: "js_trim ''  '' = []" "js_trim (concat ['' '']) = []"
    by (simp_all add: js_trim_def js_space_def)
  have d: "platform ?e = ''darwin''" "platform mac_blank_entry = ''darwin''"
    by (simp_all add: mac_def mac_blank_entry_def)
  have f: "\<not> help_requested (parseArgs (argv mac_blank_entry))"
    "\<not> truthy (parseArgs (argv mac_blank_entry) ''token'')"
    "\<not> truthy (parseArgs (argv mac_blank_entry) ''dry-run'')"
    by (simp_all add: mac_blank_entry_def mac_def parse_eval)
  have g: "keys mac_blank_entry = ['' ''] @ [CHR 0x0D] # []"
    by (simp add: mac_blank_entry_def)
  have h: "\<forall>c\<in>set ['' '']. c \<noteq> [CHR 0x0D] \<and> c \<noteq> [LF] \<and> c \<noteq> [CHR 0x03]"
    by (simp add: LF_def)
  have i: "\<exists>s. parseArgs (argv ?e) ''token'' = Some (Str s) \<and> s \<noteq> [] \<and> js_trim s = []"
    using b c(1) by simp
  have one: "fst (run ?e fresh) = Exit 1 \<and>
      (\<exists>ms. snd (run ?e fresh) = fresh\<lparr>console := console fresh @ ms\<rparr> \<and>
         last ms = Fatal EmptyToken)"
    using empty_token_fatal [OF a disjI1, OF i, of fresh] unfolding d(1) by simp
  have "keys mac_blank_entry = ['' ''] @ [CHR 0x0D] # [] \<and>
      ([CHR 0x0D] = [CHR 0x0D] \<or> [CHR 0x0D] = [LF]) \<and>
      (\<forall>c\<in>set ['' '']. c \<noteq> [CHR 0x0D] \<and> c \<noteq> [LF] \<and> c \<noteq> [CHR 0x03]) \<and>
      js_trim (concat ['' '']) = []"
    using g h c(2) by simp
  then have j: "\<exists>chunks enter rest.
      keys mac_blank_entry = chunks @ enter # rest \<and> (enter = [CHR 0x0D] \<or> enter = [LF]) \<and>
      (\<forall>c\<in>set chunks. c \<noteq> [CHR 0x0D] \<and> c \<noteq> [LF] \<and> c \<noteq> [CHR 0x03]) \<and>
      js_trim (concat chunks) = []"
    by (intro exI)
  have two: "fst (run mac_blank_entry fresh) = Exit 1 \<and>
      (\<exists>ms. snd (run mac_blank_entry fresh) = fresh\<lparr>console := console fresh @ ms\<rparr> \<and>
         last ms = Fatal EmptyToken)"
    using empty_token_fatal [OF f(1) disjI2, OF conjI, OF f(2) conjI, OF f(3) j, of fresh]
    unfolding d(2) by simp
  from a b c f g one two show ?thesis by simp
qed

text \<open>
  Counterexample to C5 as stated: \<^verbatim>\<open>--token= --dry-run\<close>, an explicit token flag with an
  empty value. The process does not end with exit code 1: it takes the placeholder and
  ends with exit code 0.
\<close>

theorem empty_explicit_token_not_fatal:
  "parseArgs (argv (mac [''--token='', ''--dry-run''])) ''token'' = Some (Str []) \<and>
   fst (run (mac [''--token='', ''--dry-run'']) fresh) = Exit 0 \<and>
   fst (run (mac [''--token='', ''--dry-run'']) fresh) \<noteq> Exit 1"
  by (simp add: sample_eval parse_eval run_eval)

section \<open>C4: dry runs\<close>

text \<open>
  Claim C4. For every invocation with the dry-run flag set (the parsed \<^verbatim>\<open>dry-run\<close> entry
  is truthy), with or without an explicit token, the run changes nothing but the
  console: the world it ends in is the world it started in with console lines added. So
  no Keychain entry is created or modified, no file or directory is created or modified,
  and no external command (Keychain write, Keychain read, identity check) is executed.
\<close>

theorem dry_run_pure:
  assumes "dryRun (config_of (parseArgs (argv e)))"
  shows "\<exists>ms. snd (run e w) = w\<lparr>console := console w @ ms\<rparr>"
proof -
  have "only_said w (snd (run e w))"
    using stages_dry [OF assms, of w e]
    by (simp add: run_def Let_def snd_finish only_said_say only_said_refl)
  then show ?thesis by (simp add: only_said_def)
qed

text \<open>
  Witness for C4: \<^verbatim>\<open>--org acme --dry-run\<close> on the sample machine, with the console
  lines of the run.
\<close>

theorem dry_run_pure_witness:
  "dryRun (config_of (parseArgs (argv (mac [''--org'', ''acme'', ''--dry-run''])))) \<and>
   (\<exists>ms. snd (run (mac [''--org'', ''acme'', ''--dry-run'']) fresh)
           = fresh\<lparr>console := console fresh @ ms\<rparr>) \<and>
   run (mac [''--org'', ''acme'', ''--dry-run'']) fresh =
     (Exit 0, fresh\<lparr>console :=
        [DryRunPlaceholderToken, DryRunWouldSaveToken, DryRunWouldCreate Zshrc,
         DryRunWouldAppend Zshrc loader,
         DryRunWouldWriteNpmrc (text_of [''@acme:registry=https://npm.pkg.github.com'',
            ''//npm.pkg.github.com/:_authToken=${NPM_TOKEN}'']),
         CheckingNpmToken, NpmTokenNotLoaded, DryRunWouldVerify, DryRunVerifyHint]\<rparr>)"
proof -
  let ?e = "mac [''--org'', ''acme'', ''--dry-run'']"
  have a: "dryRun (config_of (parseArgs (argv ?e)))"
    by (simp add: mac_def parse_eval)
  have b: "run ?e fresh =
     (Exit 0, fresh\<lparr>console :=
        [DryRunPlaceholderToken, DryRunWouldSaveToken, DryRunWouldCreate Zshrc,
         DryRunWouldAppend Zshrc loader,
         DryRunWouldWriteNpmrc (text_of [''@acme:registry=https://npm.pkg.github.com'',
            ''//npm.pkg.github.com/:_authToken=${NPM_TOKEN}'']),
         CheckingNpmToken, NpmTokenNotLoaded, DryRunWouldVerify, DryRunVerifyHint]\<rparr>)"
    by (simp add: sample_eval parse_eval run_eval npmrc_eval)
  from dry_run_pure [OF a, of fresh] a b show ?thesis by simp
qed

section \<open>C1: the merge of the registry config file\<close>

text \<open>
  Claim C1, as amended. For every existing registry config file that does not already
  hold both desired lines verbatim, and for an organization name without a line feed,
  one run that is not a dry run and in which no file operation fails writes a file whose
  lines are: the lines of the old file that are not blank and are not directive lines
  for the registry host (no line ending with \<^verbatim>\<open>:registry=https://npm.pkg.github.com\<close>, none
  starting with \<^verbatim>\<open>//npm.pkg.github.com/:_authToken=\<close>), verbatim and in their original
  order; then the scope-to-registry line for the configured organization; then the
  auth-token line that refers to \<^verbatim>\<open>${NPM_TOKEN}\<close>. Every line ends with a line feed, hence
  the empty last piece of the split. (When both desired lines are already there, the run
  leaves the file as it is; blank lines are dropped.)
\<close>

theorem npmrc_merge:
  assumes "\<not> dryRun cfg"
    and "\<not> fails e AccessHome" "\<not> fails e (ReadFile Npmrc)" "\<not> fails e (WriteFile Npmrc)"
    and "files w Npmrc = Some old"
    and "\<not> alreadyConfigured cfg old"
    and "LF \<notin> set (to_string (org cfg))"
  shows "\<exists>w' new. setupNpmrc cfg e w = Next () w' \<and> files w' Npmrc = Some new \<and>
           js_split LF new =
             filter (\<lambda>l. js_trim l \<noteq> [] \<and> keepLine l) (js_split LF old) @
             [registryLine cfg, authTokenLine, []]"
proof -
  let ?w' = "say NpmrcUpdated (w\<lparr>files := (files w)(Npmrc \<mapsto> updatedContent cfg old)\<rparr>)"
  have "setupNpmrc cfg e w = Next () ?w'"
    using assms(1-6) by (simp add: setupNpmrc_def)
  moreover have "files ?w' Npmrc = Some (updatedContent cfg old)"
    by (simp add: say_def)
  moreover have "js_split LF (updatedContent cfg old) =
      filter (\<lambda>l. js_trim l \<noteq> [] \<and> keepLine l) (js_split LF old) @
             [registryLine cfg, authTokenLine, []]"
    using updated_lines [OF assms(7)] by (simp add: filteredLines_filter)
  ultimately show ?thesis by blast
qed

text \<open>
  Witness for C1: a file with two unrelated lines, a blank line, a registry line for
  another scope and an auth-token line with a literal token.
\<close>

theorem npmrc_merge_witness:
  "\<not> dryRun acme \<and> \<not> fails (mac []) AccessHome \<and> \<not> fails (mac []) (ReadFile Npmrc) \<and>
   \<not> fails (mac []) (WriteFile Npmrc) \<and> files (with_npmrc stale_npmrc) Npmrc = Some stale_npmrc \<and>
   \<not> alreadyConfigured acme stale_npmrc \<and> LF \<notin> set (to_string (org acme)) \<and>
   (\<exists>w' new. setupNpmrc acme (mac []) (with_npmrc stale_npmrc) = Next () w' \<and>
      files w' Npmrc = Some new \<and>
      js_split LF new = [''color=true'', ''fund=false'',
        ''@acme:registry=https://npm.pkg.github.com'',
        ''//npm.pkg.github.com/:_authToken=${NPM_TOKEN}'', []])"
proof -
  have a: "\<not> dryRun acme" by (simp add: acme_eq)
  have b: "\<not> fails (mac []) AccessHome" "\<not> fails (mac []) (ReadFile Npmrc)"
    "\<not> fails (mac []) (WriteFile Npmrc)" by (simp_all add: sample_eval)
  have c: "files (with_npmrc stale_npmrc) Npmrc = Some stale_npmrc"
    by (simp add: with_npmrc_def fresh_def)
  have d: "\<not> alreadyConfigured acme stale_npmrc"
    by (simp add: acme_eq stale_npmrc_def npmrc_eval str_eval LF_def)
  have f: "LF \<notin> set (to_string (org acme))" by (simp add: acme_eq LF_def)
  have g: "filter (\<lambda>l. js_trim l \<noteq> [] \<and> keepLine l) (js_split LF stale_npmrc) =
      [''color=true'', ''fund=false'']"
    by (simp add: stale_npmrc_def npmrc_eval str_eval LF_def)
  have h: "registryLine acme = ''@acme:registry=https://npm.pkg.github.com''"
    "authTokenLine = ''//npm.pkg.github.com/:_authToken=${NPM_TOKEN}''"
    by (simp_all add: acme_eq registryLine_def authTokenLine_def)
  from npmrc_merge [OF a b c d f] a b c d f show ?thesis
    unfolding g h by simp
qed

text \<open>
  Counterexample to C1 as stated: the file holds both desired lines, a stale registry
  line for another scope before them and an unrelated line after them. The run skips
  the update: the stale line is still in the file, and the desired lines are not the
  last two lines.
\<close>

theorem stale_line_survives:
  "setupNpmrc acme (mac []) (with_npmrc configured_npmrc) =
     Next () (say NpmrcSkipped (with_npmrc configured_npmrc)) \<and>
   files (say NpmrcSkipped (with_npmrc configured_npmrc)) Npmrc = Some configured_npmrc \<and>
   js_split LF configured_npmrc =
     [''@old:registry=https://npm.pkg.github.com'', ''@acme:registry=https://npm.pkg.github.com'',
      ''//npm.pkg.github.com/:_authToken=${NPM_TOKEN}'', ''color=true'', []] \<and>
   isRegistryLine ''@old:registry=https://npm.pkg.github.com'' \<and>
   js_split LF configured_npmrc \<noteq>
     filter (\<lambda>l. js_trim l \<noteq> [] \<and> keepLine l) (js_split LF configured_npmrc) @
     [registryLine acme, authTokenLine, []]"
  by (simp add: acme_eq configured_npmrc_def npmrc_eval str_eval sample_eval say_def)

section \<open>C2: one pair of directive lines\<close>

text \<open>
  Claim C2, as amended. After every run that is not a dry run, in which no file
  operation fails, for an organization name without a line feed, and in which the writer
  writes the file (the file did not exist, or did not hold both desired lines verbatim),
  the registry config file has exactly one line ending with
  \<^verbatim>\<open>:registry=https://npm.pkg.github.com\<close>, the scope-to-registry line of the configured
  organization, and exactly one line starting with \<^verbatim>\<open>//npm.pkg.github.com/:_authToken=\<close>,
  the one that refers to \<^verbatim>\<open>${NPM_TOKEN}\<close>. (When both desired lines are already there, the
  file is left as it is, with whatever other directive lines it holds.)
\<close>

theorem npmrc_single_pair:
  assumes "\<not> dryRun cfg"
    and "\<not> fails e AccessHome" "\<not> fails e (ReadFile Npmrc)" "\<not> fails e (WriteFile Npmrc)"
    and "LF \<notin> set (to_string (org cfg))"
    and "files w Npmrc = None \<or> (\<exists>old. files w Npmrc = Some old \<and> \<not> alreadyConfigured cfg old)"
  shows "\<exists>w' new. setupNpmrc cfg e w = Next () w' \<and> files w' Npmrc = Some new \<and>
           filter isRegistryLine (js_split LF new) = [registryLine cfg] \<and>
           filter isAuthTokenLine (js_split LF new) = [authTokenLine]"
proof (cases "files w Npmrc")
  case None
  let ?w' = "say NpmrcCreated (w\<lparr>files := (files w)(Npmrc \<mapsto> npmrcContent cfg)\<rparr>)"
  have "setupNpmrc cfg e w = Next () ?w'"
    using assms(1-4) None by (simp add: setupNpmrc_def)
  moreover have "files ?w' Npmrc = Some (npmrcContent cfg)" by (simp add: say_def)
  moreover have "filter isRegistryLine (js_split LF (npmrcContent cfg)) = [registryLine cfg]"
    "filter isAuthTokenLine (js_split LF (npmrcContent cfg)) = [authTokenLine]"
    by (simp_all add: created_lines [OF assms(5)] registryLine_kind authTokenLine_kind empty_line_kind)
  ultimately show ?thesis by blast
next
  case (Some old)
  with assms(6) have nc: "\<not> alreadyConfigured cfg old" by simp
  let ?w' = "say NpmrcUpdated (w\<lparr>files := (files w)(Npmrc \<mapsto> updatedContent cfg old)\<rparr>)"
  have "setupNpmrc cfg e w = Next () ?w'"
    using assms(1-4) Some nc by (simp add: setupNpmrc_def)
  moreover have "files ?w' Npmrc = Some (updatedContent cfg old)" by (simp add: say_def)
  moreover have "filter isRegistryLine (js_split LF (updatedContent cfg old)) = [registryLine cfg]"
    "filter isAuthTokenLine (js_split LF (updatedContent cfg old)) = [authTokenLine]"
    by (simp_all add: updated_lines [OF assms(5)] registryLine_kind authTokenLine_kind
        empty_line_kind filteredLines_kind)
  ultimately show ?thesis by blast
qed

text \<open>
  Witness for C2: a file with the registry line of the organization twice and an
  auth-token line with a literal token.
\<close>

theorem npmrc_single_pair_witness:
  "\<not> dryRun acme \<and> \<not> fails (mac []) AccessHome \<and> \<not> fails (mac []) (ReadFile Npmrc) \<and>
   \<not> fails (mac []) (WriteFile Npmrc) \<and> LF \<notin> set (to_string (org acme)) \<and>
   files (with_npmrc doubled_npmrc) Npmrc = Some doubled_npmrc \<and>
   \<not> alreadyConfigured acme doubled_npmrc \<and>
   (\<exists>w' new. setupNpmrc acme (mac []) (with_npmrc doubled_npmrc) = Next () w' \<and>
      files w' Npmrc = Some new \<and>
      filter isRegistryLine (js_split LF new) = [''@acme:registry=https://npm.pkg.github.com''] \<and>
      filter isAuthTokenLine (js_split LF new) = [''//npm.pkg.github.com/:_authToken=${NPM_TOKEN}''])"
proof -
  have a: "\<not> dryRun acme" by (simp add: acme_eq)
  have b: "\<not> fails (mac []) AccessHome" "\<not> fails (mac []) (ReadFile Npmrc)"
    "\<not> fails (mac []) (WriteFile Npmrc)" by (simp_all add: sample_eval)
  have c: "files (with_npmrc doubled_npmrc) Npmrc = Some doubled_npmrc"
    by (simp add: with_npmrc_def fresh_def)
  have d: "\<not> alreadyConfigured acme doubled_npmrc"
    by (simp add: acme_eq doubled_npmrc_def npmrc_eval str_eval LF_def)
  have f: "LF \<notin> set (to_string (org acme))" by (simp add: acme_eq LF_def)
  have g: "files (with_npmrc doubled_npmrc) Npmrc = None \<or>
      (\<exists>old. files (with_npmrc doubled_npmrc) Npmrc = Some old \<and> \<not> alreadyConfigured acme old)"
    using c d by simp
  have h: "registryLine acme = ''@acme:registry=https://npm.pkg.github.com''"
    "authTokenLine = ''//npm.pkg.github.com/:_authToken=${NPM_TOKEN}''"
    by (simp_all add: acme_eq registryLine_def authTokenLine_def)
  from npmrc_single_pair [OF a b f g] a b c d f show ?thesis
    unfolding h by simp
qed

text \<open>
  Counterexample to C2 as stated: the file holds both desired lines and a second
  auth-token line with a literal token. The run skips the update, and the file still
  has two auth-token lines for the host, one of them with the literal token.
\<close>

theorem literal_token_survives:
  "setupNpmrc acme (mac []) (with_npmrc literal_npmrc) =
     Next () (say NpmrcSkipped (with_npmrc literal_npmrc)) \<and>
   files (say NpmrcSkipped (with_npmrc literal_npmrc)) Npmrc = Some literal_npmrc \<and>
   filter isAuthTokenLine (js_split LF literal_npmrc) =
     [''//npm.pkg.github.com/:_authToken=${NPM_TOKEN}'',
      ''//npm.pkg.github.com/:_authToken=ghp_literal''] \<and>
   filter isAuthTokenLine (js_split LF literal_npmrc) \<noteq> [authTokenLine]"
  by (simp add: acme_eq literal_npmrc_def npmrc_eval str_eval sample_eval say_def)

section \<open>C9: the three versions of the registry config stage\<close>

text \<open>
  Claim C9, as amended. In a run that is not a dry run and in which no file operation
  fails, the two earlier versions behave alike in their registry config stage: both
  overwrite the file with the two desired lines. The final version leaves the same file
  contents as they do exactly when the file did not exist, or held both desired lines
  and was already equal to the two-line content, or did not hold both desired lines and
  had no line to keep (no line that is neither blank nor a directive line for the
  registry host). In every other case the final version keeps lines that the earlier
  versions overwrite.
\<close>

theorem versions_registry_stage:
  assumes "\<not> dryRun cfg"
    and "\<not> fails e AccessHome" "\<not> fails e (ReadFile Npmrc)" "\<not> fails e (WriteFile Npmrc)"
  shows "setupNpmrc_v2 cfg e w = setupNpmrc_v1 cfg e w \<and>
         (files (world_of (setupNpmrc cfg e w)) Npmrc =
            files (world_of (setupNpmrc_v1 cfg e w)) Npmrc
          \<longleftrightarrow> (case files w Npmrc of
                 None \<Rightarrow> True
               | Some old \<Rightarrow>
                   if alreadyConfigured cfg old then old = npmrcContent cfg
                   else filteredLines old = []))"
proof
  show "setupNpmrc_v2 cfg e w = setupNpmrc_v1 cfg e w"
    by (simp add: setupNpmrc_v1_def setupNpmrc_v2_def npmrcContent_versions)
next
  have v1: "files (world_of (setupNpmrc_v1 cfg e w)) Npmrc = Some (npmrcContent cfg)"
    using assms by (simp add: setupNpmrc_v1_def say_def npmrcContent_versions)
  show "files (world_of (setupNpmrc cfg e w)) Npmrc =
            files (world_of (setupNpmrc_v1 cfg e w)) Npmrc
          \<longleftrightarrow> (case files w Npmrc of
                 None \<Rightarrow> True
               | Some old \<Rightarrow>
                   if alreadyConfigured cfg old then old = npmrcContent cfg
                   else filteredLines old = [])"
  proof (cases "files w Npmrc")
    case None
    with assms v1 show ?thesis by (simp add: setupNpmrc_def say_def)
  next
    case (Some old)
    show ?thesis
    proof (cases "alreadyConfigured cfg old")
      case True
      with assms Some v1 show ?thesis by (simp add: setupNpmrc_def say_def)
    next
      case False
      with assms Some v1 show ?thesis
        by (simp add: setupNpmrc_def say_def updatedContent_same)
    qed
  qed
qed

text \<open>
  Witness for C9: a file with directive lines only, which all three versions replace by
  the two desired lines.
\<close>

theorem versions_registry_stage_witness:
  "\<not> dryRun acme \<and> \<not> fails (mac []) AccessHome \<and> \<not> fails (mac []) (ReadFile Npmrc) \<and>
   \<not> fails (mac []) (WriteFile Npmrc) \<and>
   setupNpmrc_v2 acme (mac []) (with_npmrc doubled_npmrc) =
     setupNpmrc_v1 acme (mac []) (with_npmrc doubled_npmrc) \<and>
   files (world_of (setupNpmrc acme (mac []) (with_npmrc doubled_npmrc))) Npmrc =
     files (world_of (setupNpmrc_v1 acme (mac []) (with_npmrc doubled_npmrc))) Npmrc"
proof -
  have a: "\<not> dryRun acme" by (simp add: acme_eq)
  have b: "\<not> fails (mac []) AccessHome" "\<not> fails (mac []) (ReadFile Npmrc)"
    "\<not> fails (mac []) (WriteFile Npmrc)" by (simp_all add: sample_eval)
  have c: "files (with_npmrc doubled_npmrc) Npmrc = Some doubled_npmrc"
    by (simp add: with_npmrc_def fresh_def)
  have d: "\<not> alreadyConfigured acme doubled_npmrc"
    by (simp add: acme_eq doubled_npmrc_def npmrc_eval str_eval LF_def)
  have f: "filteredLines doubled_npmrc = []"
    by (simp add: doubled_npmrc_def npmrc_eval str_eval LF_def)
  from versions_registry_stage [OF a b, of "with_npmrc doubled_npmrc"] a b show ?thesis
    by (simp add: c d f)
qed

text \<open>
  Counterexample to C9 as stated: a file with the single unrelated line
  \<^verbatim>\<open>color=true\<close>. The two earlier versions overwrite it, the final version keeps it.
\<close>

theorem versions_differ:
  "files (world_of (setupNpmrc acme (mac []) (with_npmrc plain_npmrc))) Npmrc =
     Some (text_of [''color=true'', ''@acme:registry=https://npm.pkg.github.com'',
        ''//npm.pkg.github.com/:_authToken=${NPM_TOKEN}'']) \<and>
   files (world_of (setupNpmrc_v1 acme (mac []) (with_npmrc plain_npmrc))) Npmrc =
     Some (text_of [''@acme:registry=https://npm.pkg.github.com'',
        ''//npm.pkg.github.com/:_authToken=${NPM_TOKEN}'']) \<and>
   files (world_of (setupNpmrc_v2 acme (mac []) (with_npmrc plain_npmrc))) Npmrc =
     Some (text_of [''@acme:registry=https://npm.pkg.github.com'',
        ''//npm.pkg.github.com/:_authToken=${NPM_TOKEN}'']) \<and>
   files (world_of (setupNpmrc acme (mac []) (with_npmrc plain_npmrc))) Npmrc \<noteq>
     files (world_of (setupNpmrc_v1 acme (mac []) (with_npmrc plain_npmrc))) Npmrc"
  by (simp add: acme_eq plain_npmrc_def npmrc_eval str_eval sample_eval say_def
      setupNpmrc_v1_def setupNpmrc_v2_def npmrcContent_v1_def npmrcContent_v2_def)

section \<open>C3: the shell profile updater\<close>

text \<open>
  Claim C3, as amended. In a run that is not a dry run, with a recognized shell and no
  failing operation: if the content of the profile file holds both markers (the service
  name and \<^verbatim>\<open>security find-generic-password\<close>), the updater writes nothing; otherwise it
  appends the fixed loader to the end of the file and changes nothing before it. So for
  every initial content without the markers, any positive number of runs in succession
  leaves the initial content followed by the loader, a text in which the loader occurs
  exactly once; and for every initial content with the markers, any number of runs
  leaves the file as it was, however many loader blocks it holds. (A file that does not
  exist counts as empty content and is created.) The Keychain is not touched and no
  command is run.
\<close>

theorem rc_update_idempotent:
  assumes "\<not> dryRun cfg" and "\<And>op. \<not> fails e op"
    and "fst (detectRcFile e w) = Some rcFile"
    and "c0 = (case files w rcFile of None \<Rightarrow> [] | Some c \<Rightarrow> c)"
  shows "(\<exists>w'. setupRcFile_times (Suc n) cfg e w = Next () w' \<and>
            files w' = (files w)(rcFile \<mapsto> (if hasKeychainLoader c0 then c0 else c0 @ loader)) \<and>
            vault w' = vault w \<and> cmds w' = cmds w) \<and>
         (\<not> hasKeychainLoader c0 \<longrightarrow> occurrences loader (c0 @ loader) = 1)"
proof
  show "\<exists>w'. setupRcFile_times (Suc n) cfg e w = Next () w' \<and>
            files w' = (files w)(rcFile \<mapsto> (if hasKeychainLoader c0 then c0 else c0 @ loader)) \<and>
            vault w' = vault w \<and> cmds w' = cmds w"
    using setupRcFile_repeat [OF assms(1,2,3), of n] unfolding assms(4) .
next
  show "\<not> hasKeychainLoader c0 \<longrightarrow> occurrences loader (c0 @ loader) = 1"
    by (simp add: loader_once)
qed

text \<open>
  Witness for C3: two runs on a profile with one line that sets \<^verbatim>\<open>PATH\<close>.
\<close>

theorem rc_update_idempotent_witness:
  "\<not> dryRun acme \<and> fst (detectRcFile (mac []) (with_zshrc plain_zshrc)) = Some Zshrc \<and>
   files (with_zshrc plain_zshrc) Zshrc = Some plain_zshrc \<and>
   \<not> hasKeychainLoader plain_zshrc \<and>
   (\<exists>w'. setupRcFile_times (Suc (Suc 0)) acme (mac []) (with_zshrc plain_zshrc) = Next () w' \<and>
      files w' = (files (with_zshrc plain_zshrc))(Zshrc \<mapsto> plain_zshrc @ loader) \<and>
      vault w' = vault (with_zshrc plain_zshrc) \<and> cmds w' = cmds (with_zshrc plain_zshrc)) \<and>
   occurrences loader (plain_zshrc @ loader) = 1"
proof -
  have a: "\<not> dryRun acme" by (simp add: acme_eq)
  have b: "\<And>op. \<not> fails (mac []) op" by (simp add: sample_eval)
  have c: "fst (detectRcFile (mac []) (with_zshrc plain_zshrc)) = Some Zshrc"
    by (simp add: detectRcFile_def js_basename_def mac_def)
  have d: "files (with_zshrc plain_zshrc) Zshrc = Some plain_zshrc"
    by (simp add: with_zshrc_def fresh_def)
  have f: "plain_zshrc = (case files (with_zshrc plain_zshrc) Zshrc of None \<Rightarrow> [] | Some c \<Rightarrow> c)"
    by (simp add: d)
  have g: "\<not> hasKeychainLoader plain_zshrc"
    by (simp add: plain_zshrc_def hasKeychainLoader_def KEYCHAIN_SERVICE_def js_includes_def
        sublist_code text_of_def LF_def)
  from rc_update_idempotent [OF a b c f, of "Suc 0"] a c d g show ?thesis by simp
qed

text \<open>
  Counterexample to C3 as stated: a profile whose only line is a comment that names
  both markers. Two runs in succession skip the append, and the file holds the loader
  zero times, not once.
\<close>

theorem loader_never_added:
  "setupRcFile_times (Suc (Suc 0)) acme (mac []) (with_zshrc marked_zshrc) =
     Next () (say (LoaderSkipped Zshrc) (say (LoaderSkipped Zshrc) (with_zshrc marked_zshrc))) \<and>
   files (say (LoaderSkipped Zshrc) (say (LoaderSkipped Zshrc) (with_zshrc marked_zshrc))) Zshrc
     = Some marked_zshrc \<and>
   occurrences loader marked_zshrc = 0 \<and>
   occurrences loader marked_zshrc \<noteq> 1"
  by (simp add: acme_eq marked_zshrc_def rc_eval sample_eval loader_def
      KEYCHAIN_LOADER_SCRIPT_def)

section \<open>C8: where the verifier takes the secret from\<close>

text \<open>
  Claim C8, as amended. In a verification that is not a dry run, the secret is read back
  from the Keychain, and the value of \<^verbatim>\<open>NPM_TOKEN\<close> (empty when unset) is used instead if
  and only if that read fails: the read command fails or there is no entry. When the
  read succeeds the secret is the stored one, trimmed, and \<^verbatim>\<open>NPM_TOKEN\<close> is not looked at.
  The verifier ends with exit code 1 and the message about missing credentials exactly
  when the secret so obtained is empty: the read fails and \<^verbatim>\<open>NPM_TOKEN\<close> is unset or
  empty, or the read succeeds with a blank secret, whatever \<^verbatim>\<open>NPM_TOKEN\<close> holds. In every
  other case the identity check is run with that secret in its environment.
\<close>

theorem verifier_credential_sourcing:
  assumes "\<not> dryRun cfg"
  shows "\<exists>secret.
           secret =
             (case (if fails e VaultFind then None else vault w) of
                Some kept \<Rightarrow> js_trim (kept @ [LF])
              | None \<Rightarrow> (case env_NPM_TOKEN e of Some t \<Rightarrow> t | None \<Rightarrow> [])) \<and>
           (validateNpm cfg e token w = Halt (Exit 1) (say NoCredential (ran SecurityFind w))
              \<longleftrightarrow> secret = []) \<and>
           (secret \<noteq> [] \<longrightarrow>
              cmds (world_of (validateNpm cfg e token w)) =
                cmds w @ [SecurityFind, NpmWhoami secret])"
proof -
  define secret where "secret = fst (getKeychainToken e w)"
  have src: "secret =
      (case (if fails e VaultFind then None else vault w) of
         Some kept \<Rightarrow> js_trim (kept @ [LF])
       | None \<Rightarrow> (case env_NPM_TOKEN e of Some t \<Rightarrow> t | None \<Rightarrow> []))"
    by (simp add: secret_def getKeychainToken_def vaultRead_def split: option.splits)
  have present: "secret \<noteq> [] \<longrightarrow>
      cmds (world_of (validateNpm cfg e token w)) = cmds w @ [SecurityFind, NpmWhoami secret]"
    using validateNpm_present [OF assms] by (simp add: secret_def)
  have "validateNpm cfg e token w = Halt (Exit 1) (say NoCredential (ran SecurityFind w))
          \<longleftrightarrow> secret = []"
  proof
    assume h: "validateNpm cfg e token w = Halt (Exit 1) (say NoCredential (ran SecurityFind w))"
    show "secret = []"
    proof (rule ccontr)
      assume "secret \<noteq> []"
      with present have "cmds (world_of (validateNpm cfg e token w)) =
          cmds w @ [SecurityFind, NpmWhoami secret]" by simp
      with h show False by (simp add: say_def ran_def)
    qed
  next
    assume "secret = []"
    then show "validateNpm cfg e token w = Halt (Exit 1) (say NoCredential (ran SecurityFind w))"
      using validateNpm_missing [OF assms] by (simp add: secret_def)
  qed
  with src present show ?thesis by blast
qed

text \<open>
  Witness for C8, at two inputs. With the token \<^verbatim>\<open>ghp_abc\<close> in the Keychain and another
  one in \<^verbatim>\<open>NPM_TOKEN\<close>, the identity check receives the one read back from the Keychain.
  With an empty Keychain the read fails and the identity check receives \<^verbatim>\<open>NPM_TOKEN\<close>.
\<close>

theorem verifier_credential_sourcing_witness:
  "\<not> dryRun acme \<and> \<not> fails mac_with_env_token VaultFind \<and>
   env_NPM_TOKEN mac_with_env_token = Some ''ghp_env'' \<and>
   vault stored = Some ''ghp_abc'' \<and>
   validateNpm acme mac_with_env_token ''ghp_abc'' stored \<noteq>
     Halt (Exit 1) (say NoCredential (ran SecurityFind stored)) \<and>
   cmds (world_of (validateNpm acme mac_with_env_token ''ghp_abc'' stored)) =
     cmds stored @ [SecurityFind, NpmWhoami ''ghp_abc''] \<and>
   vault fresh = None \<and>
   validateNpm acme mac_with_env_token ''ghp_abc'' fresh \<noteq>
     Halt (Exit 1) (say NoCredential (ran SecurityFind fresh)) \<and>
   cmds (world_of (validateNpm acme mac_with_env_token ''ghp_abc'' fresh)) =
     cmds fresh @ [SecurityFind, NpmWhoami ''ghp_env'']"
proof -
  have a: "\<not> dryRun acme" by (simp add: acme_eq)
  have b: "\<not> fails mac_with_env_token VaultFind"
    by (simp add: mac_with_env_token_def sample_eval)
  have c: "env_NPM_TOKEN mac_with_env_token = Some ''ghp_env''"
    by (simp add: mac_with_env_token_def)
  have d: "vault stored = Some ''ghp_abc''" "vault fresh = None"
    by (simp_all add: stored_def fresh_def)
  have t: "js_trim (''ghp_abc'' @ [LF]) = ''ghp_abc''"
    by (simp add: js_trim_def js_space_def LF_def)
  from verifier_credential_sourcing [OF a, of mac_with_env_token stored "''ghp_abc''"]
  have one: "validateNpm acme mac_with_env_token ''ghp_abc'' stored \<noteq>
        Halt (Exit 1) (say NoCredential (ran SecurityFind stored))"
    "cmds (world_of (validateNpm acme mac_with_env_token ''ghp_abc'' stored)) =
        cmds stored @ [SecurityFind, NpmWhoami ''ghp_abc'']"
    using b d(1) t by auto
  from verifier_credential_sourcing [OF a, of mac_with_env_token fresh "''ghp_abc''"]
  have two: "validateNpm acme mac_with_env_token ''ghp_abc'' fresh \<noteq>
        Halt (Exit 1) (say NoCredential (ran SecurityFind fresh))"
    "cmds (world_of (validateNpm acme mac_with_env_token ''ghp_abc'' fresh)) =
        cmds fresh @ [SecurityFind, NpmWhoami ''ghp_env'']"
    using b c d(2) by auto
  from a b c d one two show ?thesis by simp
qed

text \<open>
  Counterexample to C8 as stated: the Keychain holds two blanks and \<^verbatim>\<open>NPM_TOKEN\<close> holds
  a token. The read succeeds, its trimmed output is empty, and the verifier ends with
  exit code 1 and the message about missing credentials, although the environment
  variable would give a secret that is not empty: it is never looked at, and the
  identity check is not run.
\<close>

theorem blank_secret_is_fatal:
  "vault blank_stored = Some ''  '' \<and>
   \<not> fails mac_with_env_token VaultFind \<and>
   env_NPM_TOKEN mac_with_env_token = Some ''ghp_env'' \<and>
   validateNpm acme mac_with_env_token ''ghp_abc'' blank_stored =
     Halt (Exit 1) (say NoCredential (ran SecurityFind blank_stored)) \<and>
   cmds (world_of (validateNpm acme mac_with_env_token ''ghp_abc'' blank_stored)) =
     [SecurityFind]"
  by (simp add: acme_eq blank_stored_def mac_with_env_token_def sample_eval validateNpm_def
      getKeychainToken_def vaultRead_def js_trim_def js_space_def say_def ran_def)

end
